theory Spec2Isabelle
  imports Main
begin

section \<open>Characters\<close>

text \<open>
  A JavaScript string is modelled as a \<^typ>\<open>string\<close>, one \<^typ>\<open>char\<close> per code unit.
  The model covers ASCII text: \<open>toUpperCase\<close> maps the letters a-z, and the white space
  of \<open>\s\<close> and \<open>trim\<close> is the ASCII white space. A code unit outside ASCII is kept as
  it is and is neither a word character nor white space.
\<close>

definition isDigit :: "char \<Rightarrow> bool" where
  "isDigit c = (c \<in> set ''0123456789'')"

definition isWordChar :: "char \<Rightarrow> bool" where
  "isWordChar c =
     (c \<in> set ''ABCDEFGHIJKLMNOPQRSTUVWXYZabcdefghijklmnopqrstuvwxyz0123456789_'')"

definition isSpace :: "char \<Rightarrow> bool" where
  "isSpace c = (c \<in> set [CHR 0x09, CHR 0x0A, CHR 0x0B, CHR 0x0C, CHR 0x0D, CHR 0x20])"

definition upperChar :: "char \<Rightarrow> char" where
  "upperChar c =
     (case map_of (zip ''abcdefghijklmnopqrstuvwxyz'' ''ABCDEFGHIJKLMNOPQRSTUVWXYZ'') c of
        Some u \<Rightarrow> u
      | None \<Rightarrow> c)"

definition toUpperCase :: "string \<Rightarrow> string" where
  "toUpperCase s = map upperChar s"

definition trim :: "string \<Rightarrow> string" where
  "trim s = rev (dropWhile isSpace (rev (dropWhile isSpace s)))"


section \<open>Regular expressions\<close>

text \<open>
  The regular expressions of the source, as far as it uses them: literal text, a
  character class, sequence, the greedy quantifiers \<open>?\<close> (on any expression) and
  \<open>*\<close>, \<open>+\<close> (on a class), the word boundary \<open>\b\<close>, the end anchor \<open>$\<close> and a capturing
  group whose text is read afterwards. Alternation occurs at top level only and is a
  list of alternatives.
\<close>

datatype cclass =
    CDigit            \<comment> \<open>\<open>\d\<close>\<close>
  | CWord             \<comment> \<open>\<open>\w\<close>\<close>
  | CNonSpace         \<comment> \<open>\<open>\S\<close>\<close>
  | CDot              \<comment> \<open>\<open>.\<close>: any character but a line terminator\<close>
  | CChars string     \<comment> \<open>\<open>[...]\<close> of the listed characters\<close>
  | CSpaceOr string   \<comment> \<open>\<open>[\s...]\<close>: white space or a listed character\<close>

fun inClass :: "cclass \<Rightarrow> char \<Rightarrow> bool" where
  "inClass CDigit c = isDigit c"
| "inClass CWord c = isWordChar c"
| "inClass CNonSpace c = (\<not> isSpace c)"
| "inClass CDot c = (c \<noteq> CHR 0x0A \<and> c \<noteq> CHR 0x0D)"
| "inClass (CChars cs) c = (c \<in> set cs)"
| "inClass (CSpaceOr cs) c = (isSpace c \<or> c \<in> set cs)"

datatype rx =
    Lit string
  | Cls cclass
  | Seq rx rx
  | Opt rx
  | Star cclass
  | Plus cclass
  | WordB
  | Eos
  | Cap rx

abbreviation OptL :: "string \<Rightarrow> rx" where
  "OptL s \<equiv> Opt (Lit s)"

definition seqs :: "rx list \<Rightarrow> rx" where
  "seqs rs = foldr Seq rs (Lit [])"

text \<open>
  A matching state: whether the character before the position is a word character
  (for \<open>\b\<close>), the text of the capturing group if it took part, and the text still to
  be read.
\<close>

type_synonym mstate = "bool \<times> string option \<times> string"

fun stripPrefix :: "string \<Rightarrow> string \<Rightarrow> string option" where
  "stripPrefix [] s = Some s"
| "stripPrefix (c # cs) [] = None"
| "stripPrefix (c # cs) (d # s) = (if c = d then stripPrefix cs s else None)"

text \<open>The ways a greedy run of a class can end, the longest first.\<close>

fun classRun :: "cclass \<Rightarrow> bool \<Rightarrow> string \<Rightarrow> (bool \<times> string) list" where
  "classRun k w [] = [(w, [])]"
| "classRun k w (c # s) =
     (if inClass k c then classRun k (isWordChar c) s @ [(w, c # s)] else [(w, c # s)])"

text \<open>
  The backtracking matcher: every way the expression matches at the position, in the
  order a backtracking engine tries them. The engine's match is the first.
\<close>

fun rmatch :: "rx \<Rightarrow> mstate \<Rightarrow> mstate list" where
  "rmatch (Lit cs) (w, cap, s) =
     (case stripPrefix cs s of
        None \<Rightarrow> []
      | Some t \<Rightarrow> [(if cs = [] then w else isWordChar (last cs), cap, t)])"
| "rmatch (Cls k) (w, cap, s) =
     (case s of
        [] \<Rightarrow> []
      | c # t \<Rightarrow> if inClass k c then [(isWordChar c, cap, t)] else [])"
| "rmatch (Seq a b) st = concat (map (rmatch b) (rmatch a st))"
| "rmatch (Opt a) st = rmatch a st @ [st]"
| "rmatch (Star k) (w, cap, s) = map (\<lambda>(w', t). (w', cap, t)) (classRun k w s)"
| "rmatch (Plus k) (w, cap, s) =
     (case s of
        [] \<Rightarrow> []
      | c # t \<Rightarrow>
          if inClass k c then map (\<lambda>(w', t'). (w', cap, t')) (classRun k (isWordChar c) t)
          else [])"
| "rmatch WordB (w, cap, s) =
     (if w \<noteq> (case s of [] \<Rightarrow> False | c # _ \<Rightarrow> isWordChar c) then [(w, cap, s)] else [])"
| "rmatch Eos (w, cap, s) = (if s = [] then [(w, cap, s)] else [])"
| "rmatch (Cap a) (w, cap, s) =
     map (\<lambda>(w', _, t). (w', Some (take (length s - length t) s), t)) (rmatch a (w, cap, s))"

text \<open>The first alternative that matches at the position, with its first match.\<close>

fun firstMatch :: "rx list \<Rightarrow> mstate \<Rightarrow> mstate option" where
  "firstMatch [] st = None"
| "firstMatch (r # rs) st =
     (case rmatch r st of
        [] \<Rightarrow> firstMatch rs st
      | x # _ \<Rightarrow> Some x)"

text \<open>\<open>new RegExp('^' + pattern + '$').test(str)\<close>\<close>

definition wholeStringMatchesPattern :: "string \<Rightarrow> rx \<Rightarrow> bool" where
  "wholeStringMatchesPattern str pattern = (rmatch (Seq pattern Eos) (False, None, str) \<noteq> [])"

text \<open>
  \<open>str.match(regex)\<close> with the flag \<open>g\<close>: the matches from left to right. After an
  empty match the engine moves on by one character.
\<close>

function matchAll :: "rx list \<Rightarrow> bool \<Rightarrow> string \<Rightarrow> string list" where
  "matchAll rs w s =
     (case firstMatch rs (w, None, s) of
        Some (w', _, t) \<Rightarrow>
          if length t < length s then take (length s - length t) s # matchAll rs w' t
          else [] # (case s of [] \<Rightarrow> [] | c # s' \<Rightarrow> matchAll rs (isWordChar c) s')
      | None \<Rightarrow> (case s of [] \<Rightarrow> [] | c # s' \<Rightarrow> matchAll rs (isWordChar c) s'))"
  by pat_completeness auto
termination
  by (relation "measure (\<lambda>(rs, w, s). length s)") auto

declare matchAll.simps [simp del]

text \<open>\<open>str.replace(regex, rep)\<close> with the flag \<open>g\<close>.\<close>

function replaceAll :: "rx list \<Rightarrow> string \<Rightarrow> bool \<Rightarrow> string \<Rightarrow> string" where
  "replaceAll rs rep w s =
     (case firstMatch rs (w, None, s) of
        Some (w', _, t) \<Rightarrow>
          if length t < length s then rep @ replaceAll rs rep w' t
          else rep @ (case s of [] \<Rightarrow> [] | c # s' \<Rightarrow> c # replaceAll rs rep (isWordChar c) s')
      | None \<Rightarrow> (case s of [] \<Rightarrow> [] | c # s' \<Rightarrow> c # replaceAll rs rep (isWordChar c) s'))"
  by pat_completeness auto
termination
  by (relation "measure (\<lambda>(rs, rep, w, s). length s)") auto

declare replaceAll.simps [simp del]

text \<open>\<open>str.match(regex)\<close> without \<open>g\<close>: the leftmost match, here its capturing group.\<close>

fun searchFirst :: "rx \<Rightarrow> bool \<Rightarrow> string \<Rightarrow> mstate option" where
  "searchFirst r w [] = (case rmatch r (w, None, []) of [] \<Rightarrow> None | x # _ \<Rightarrow> Some x)"
| "searchFirst r w (c # s) =
     (case rmatch r (w, None, c # s) of
        [] \<Rightarrow> searchFirst r (isWordChar c) s
      | x # _ \<Rightarrow> Some x)"


section \<open>Step 1: the tokenizer\<close>

definition saintNames :: "string list" where
  "saintNames =
    [''ADALBERT'', ''ALBAN'', ''ANDREW'', ''ANN'', ''ANTHONY'', ''AUSTIN'', ''CHARLES'',
     ''CLAIR'', ''EDWARD'', ''FELIX'', ''FRANCIS'', ''GEORGE'', ''JAMES'', ''JOHN'', ''JOSEPH'',
     ''JUDE'', ''JULIAN'', ''LAWRENCE'', ''LUKE'', ''MARK'', ''MARY'', ''NICHOLAS'', ''OUEN'',
     ''PATRICK'', ''PAUL'', ''PETER'', ''RAYMOND'', ''STEPHEN'', ''THERESA'']"

text \<open>\<open>"ST\\.? " + x + "'?S?"\<close>\<close>

definition saintPattern :: "string \<Rightarrow> rx" where
  "saintPattern x = seqs [Lit ''ST'', OptL ''.'', Lit '' '', Lit x, OptL [CHR 0x27], OptL ''S'']"

text \<open>The multi-word patterns of a borough, by borough code, in the order of the source.\<close>

definition boroRegexes :: "(nat \<times> rx list) list" where
  "boroRegexes =
   [(1, [seqs [Lit ''MARBLE'', OptL '' '', Lit ''H'', OptL ''I'', OptL ''L'', Lit ''L'']]),
    (2, [seqs [Lit ''THE'', OptL '' '', Lit ''B'', OptL ''RO'', OptL ''N'', Lit ''X'']]),
    (4, [seqs [Lit ''ADDISLEIGH'', OptL '' '', Lit ''P'', OptL ''A'', OptL ''R'', Lit ''K''],
         seqs [Lit ''BAYSIDE'', OptL '' '', Lit ''H'', OptL ''I'', OptL ''L'', Lit ''L'', OptL ''S''],
         seqs [Lit ''BELL'', OptL ''E'', OptL '' '', Lit ''H'', OptL ''A'', Lit ''RB'', OptL ''OR''],
         seqs [Lit ''BELL'', OptL ''E'', Lit ''ROSE'', Lit '' MANOR''],
         seqs [Lit ''BREEZY'', OptL '' '', Lit ''P'', OptL ''OI'', OptL ''N'', Lit ''T''],
         seqs [Lit ''BR'', OptL ''OA'', Lit ''D'', OptL '' '', Lit ''CHAN'', OptL ''NEL''],
         seqs [Lit ''CAMBRIA'', OptL '' '', Lit ''H'', OptL ''EI'', OptL ''GH'', Lit ''T'', OptL ''S''],
         seqs [Lit ''COLLEGE'', OptL '' '', Lit ''P'', OptL ''OI'', OptL ''N'', Lit ''T''],
         seqs [Lit ''E'', OptL ''AST'', OptL '' '', Lit ''ELMHURST''],
         seqs [Lit ''F'', OptL ''A'', Lit ''R'', OptL '' '', Lit ''ROCKAWAY''],
         seqs [Lit ''F'', OptL ''O'', Lit ''R'', OptL ''E'', Lit ''ST'', OptL '' '', Lit ''H'',
               OptL ''I'', OptL ''L'', Lit ''L'', OptL ''S''],
         seqs [Lit ''F'', OptL ''OR'', Lit ''T'', OptL '' '', Lit ''TILDEN''],
         seqs [Lit ''FR'', OptL ''E'', Lit ''SH'', OptL '' '', Lit ''M'', OptL ''EA'', Lit ''D'',
               OptL ''O'', Lit ''WS''],
         seqs [Lit ''HOLLIS'', OptL '' '', Lit ''H'', OptL ''I'', OptL ''L'', Lit ''L'', OptL ''S''],
         seqs [Lit ''HOWARD'', OptL '' '', Lit ''B'', OptL ''EA'', Lit ''CH''],
         seqs [Lit ''JACKSON'', OptL '' '', Lit ''H'', OptL ''EI'', OptL ''G'', OptL ''H'', Lit ''T'',
               OptL ''S''],
         seqs [Opt (seqs [Lit ''JOHN F'', Opt (Cls CDot), Lit '' '']), Lit ''KENNEDY AIRP'',
               OptL ''O'', OptL ''R'', Lit ''T''],
         seqs [Lit ''JFK'', OptL '' '', Lit ''AIRP'', OptL ''O'', OptL ''R'', Lit ''T''],
         seqs [Lit ''KEW'', OptL '' '', Lit ''G'', OptL ''A'', Lit ''RD'', OptL ''E'', Lit ''N'',
               OptL ''S'', Opt (seqs [Lit '' H'', OptL ''I'', OptL ''L'', Lit ''L'', OptL ''S''])],
         seqs [Lit ''LITTLE'', OptL '' '', Lit ''N'', OptL ''E'', Lit ''CK''],
         seqs [Lit ''LA'', OptL '' '', Lit ''GUARDIA AIRP'', OptL ''O'', OptL ''R'', Lit ''T''],
         seqs [Lit ''L'', OptL ''ONG'', OptL '' '', Lit ''I'', OptL ''S'', OptL ''LAND'', OptL '' '',
               Lit ''CITY''],
         seqs [Lit ''MID'', OptL ''DLE'', OptL '' '', Lit ''V'', OptL ''I'', Lit ''L'', OptL ''LA'',
               Lit ''G'', OptL ''E''],
         seqs [Lit ''OAKL'', OptL ''A'', Lit ''ND'', OptL '' '', Lit ''G'', OptL ''A'', Lit ''RD'',
               OptL ''E'', Lit ''N'', OptL ''S''],
         seqs [Opt (seqs [Lit ''S'', OptL ''OUTH'', Lit '' '']), Lit ''OZONE'', OptL '' '', Lit ''P'',
               OptL ''A'', OptL ''R'', Lit ''K''],
         seqs [Lit ''Q'', OptL ''UEE'', Lit ''NS'', OptL '' '', Lit ''V'', OptL ''I'', Lit ''L'',
               OptL ''LA'', Lit ''G'', OptL ''E''],
         seqs [Lit ''REGO'', OptL '' '', Lit ''P'', OptL ''A'', OptL ''R'', Lit ''K''],
         seqs [Opt (seqs [Lit ''S'', OptL ''OUTH'', Lit '' '']), Lit ''RICHMOND'', OptL '' '',
               Lit ''H'', OptL ''I'', OptL ''L'', Lit ''L'', OptL ''S''],
         seqs [Lit ''ROCHDALE'', OptL '' '', Lit ''V'', OptL ''I'', Lit ''L'', OptL ''LA'', Lit ''G'',
               OptL ''E''],
         seqs [Lit ''ROCKAWAY'', OptL '' '', Lit ''B'', OptL ''EA'', Lit ''CH''],
         seqs [Lit ''ROCKAWAY'', OptL '' '', Lit ''P'', OptL ''A'', OptL ''R'', Lit ''K''],
         seqs [Lit ''ROCKAWAY'', OptL '' '', Lit ''P'', OptL ''OI'', OptL ''N'', Lit ''T''],
         seqs [Lit ''S'', OptL ''AIN'', Lit ''T'', OptL '' '', Lit ''ALBAN'', OptL ''S''],
         seqs [Lit ''SPRINGFIELD'', OptL '' '', Lit ''G'', OptL ''A'', Lit ''RD'', OptL ''E'',
               Lit ''N'', OptL ''S''],
         seqs [Lit ''WAVE'', OptL '' '', Lit ''CR'', OptL ''E'', Lit ''ST'']]),
    (5, [seqs [Lit ''STATEN'', OptL '' '', Lit ''IS'', OptL ''L'', OptL ''AND'']]),
    (6, [seqs [Lit ''NEW'', OptL '' '', Lit ''YORK'', OptL '' CITY''],
         seqs [Lit ''NY'', OptL '' '', Lit ''CITY'']]),
    (7, [seqs [Lit ''UNITED STATES'', Lit '' OF AMERICA'']])]"

definition multiWordTokens :: "rx list" where
  "multiWordTokens =
     map saintPattern saintNames @
     [seqs [Lit ''AV'', OptL ''E'', OptL ''NUE'', Lit '' OF''],
      seqs [Opt (seqs [Lit ''BMT'', Cls CDot, Lit ''Q'', Cls CDot]), Lit ''AV'', OptL ''E'',
            OptL ''NUE'', Lit '' '', Cls CWord],
      seqs [Lit ''FRONT STR'', OptL ''EET''],
      seqs [Cls CWord, Lit '' STR'', OptL ''EET''],
      seqs [Lit ''FRONT R'', OptL ''OA'', Lit ''D''],
      seqs [Cls CWord, Lit '' R'', OptL ''OA'', Lit ''D''],
      seqs [Lit ''OF NEW'', OptL '' '', Lit ''YORK''],
      Lit ''OF NY'',
      Lit ''OF MANHATTAN'',
      seqs [Lit ''OF THE'', OptL '' '', Lit ''BRONX''],
      seqs [Lit ''OF B'', OptL ''R'', OptL ''OO'', Lit ''KLYN''],
      seqs [Lit ''OF Q'', OptL ''UEE'', Lit ''NS''],
      seqs [Lit ''C'', OptL ''E'', OptL ''N'', Lit ''T'', OptL ''E'', Lit ''R Q'', OptL ''UEE'',
            Lit ''NS''],
      seqs [Lit ''OF STATEN'', OptL '' '', Lit ''IS'', OptL ''L'', OptL ''AND''],
      Lit ''OF SI'',
      seqs [Lit ''PS'', Opt (Cls CDot), Lit ''IS 78 Q''],
      seqs [Lit ''H'', OptL ''A'', OptL ''R'', Lit ''B'', OptL ''O'', Lit ''R B'', OptL ''U'',
            OptL ''I'', Lit ''LD'', OptL ''I'', OptL ''N'', Lit ''G Q''],
      seqs [Lit ''AIR TRAIN'', Star (CChars ''-ABCDEFGHIJKLMNOPQRSTUVWXYZ'')],
      Lit ''ED KOCH'',
      Lit ''UNDER THE''] @
     concat (map snd boroRegexes)"

text \<open>\<open>'\\b' + multiWordTokens.join('\\b|\\b') + '\\b|\\S+'\<close>, as its alternatives.\<close>

definition tokenizerRegex :: "rx list" where
  "tokenizerRegex = map (\<lambda>p. seqs [WordB, p, WordB]) multiWordTokens @ [Plus CNonSpace]"

text \<open>\<open>/\.*[\s,]+|\.+$/g\<close>\<close>

definition cleanRegex :: "rx list" where
  "cleanRegex = [seqs [Star (CChars ''.''), Plus (CSpaceOr '','')], seqs [Plus (CChars ''.''), Eos]]"

definition tokenize :: "string \<Rightarrow> string list" where
  "tokenize input =
     matchAll tokenizerRegex False (toUpperCase (trim (replaceAll cleanRegex '' '' False input)))"


section \<open>Step 2: how many tokens are part of the housenumber\<close>

definition housenumberTokens :: "string list" where
  "housenumberTokens =
    [''GAR'', ''GARAGE'', ''REAR'', ''AA'', ''AB'', ''AF'', ''AS'', ''BA'', ''BB'',
     ''CE'', ''ED'', ''SF'', ''1/2'', ''1/3'', ''2/3'', ''1/4'', ''3/4'', ''INT'', ''INTER'', ''UNDER'',
     ''UNDRGRND'', ''UNDERGROUND'', ''AIR'', ''RIGHT'', ''RIGHTS'', ''RGHT'', ''RGHTS'', ''RGT'', ''RGTS'',
     ''E-BLDG'', ''W-BLDG'']"

definition ambiguousTokens :: "string list" where
  "ambiguousTokens = [''A'', ''B'', ''C'', ''D'', ''FRONT'']"

text \<open>\<open>tokens[i] ?? ''\<close>\<close>

definition tokenAt :: "string list \<Rightarrow> nat \<Rightarrow> string" where
  "tokenAt ts i = (if i < length ts then ts ! i else [])"

text \<open>\<open>str.search(/\d/) === 0\<close>\<close>

fun beginsWithDigit :: "string \<Rightarrow> bool" where
  "beginsWithDigit [] = False"
| "beginsWithDigit (c # _) = isDigit c"

text \<open>The loop of step 2, on the token count reached so far.\<close>

function countLoop :: "string list \<Rightarrow> nat \<Rightarrow> nat" where
  "countLoop ts n =
     (if n < length ts then
        (if ts ! n \<in> set housenumberTokens
            \<or> (ts ! n \<in> set ambiguousTokens
                \<and> tokenAt ts (n + 1) \<in> set (housenumberTokens @ ambiguousTokens))
         then countLoop ts (n + 1)
         else n)
      else n)"
  by pat_completeness auto
termination
  by (relation "measure (\<lambda>(ts, n). length ts - n)") auto

declare countLoop.simps [simp del]

definition countHousenumberTokens :: "string list \<Rightarrow> nat" where
  "countHousenumberTokens ts = (if beginsWithDigit (tokenAt ts 0) then countLoop ts 1 else 0)"


section \<open>Step 3: the borough, and the tokens removed from the end\<close>

definition simpleBoros :: "(string \<times> nat) list" where
  "simpleBoros =
    [(''MANHATTAN'', 1), (''M'', 1), (''MA'', 1), (''MH'', 1), (''MN'', 1), (''MAN'', 1), (''MANH'', 1),
     (''BRONX'', 2), (''BX'', 2), (''BRX'', 2), (''BRON'', 2),
     (''BROOKLYN'', 3), (''BK'', 3), (''BRK'', 3), (''BKLYN'', 3), (''BRKLYN'', 3),
     (''QUEENS'', 4), (''Q'', 4), (''QU'', 4), (''QN'', 4), (''QNS'', 4), (''ARVERNE'', 4),
     (''ASTORIA'', 4), (''AUBURNDALE'', 4), (''BAYSIDE'', 4), (''BEECHHURST'', 4),
     (''BRIARWOOD'', 4), (''CORONA'', 4), (''DOUGLASTON'', 4), (''EDGEMERE'', 4),
     (''ELMHURST'', 4), (''FLUSHING'', 4), (''GLENDALE'', 4), (''HOLLIS'', 4), (''JAMAICA'', 4),
     (''LAURELTON'', 4), (''LIC'', 4), (''MALBA'', 4), (''MASPETH'', 4), (''NEPONSIT'', 4),
     (''RIDGEWOOD'', 4), (''ROSEDALE'', 4), (''SUNNYSIDE'', 4), (''WHITESTONE'', 4),
     (''WOODHAVEN'', 4), (''WOODSIDE'', 4),
     (''SI'', 5),
     (''NY'', 6), (''NYNY'', 6), (''NYC'', 6),
     (''US'', 7), (''USA'', 7)]"

definition zipPrefixBoros :: "(string \<times> nat) list" where
  "zipPrefixBoros =
    [(''100'', 1), (''101'', 1), (''102'', 1),
     (''104'', 2),
     (''112'', 3),
     (''111'', 4), (''113'', 4), (''114'', 4), (''116'', 4),
     (''103'', 5)]"

text \<open>\<open>/^(\d\d\d)\d\d/.exec(finalToken)\<close>: the three digits of the group, if it matches.\<close>

fun zipMatches :: "string \<Rightarrow> string option" where
  "zipMatches (a # b # c # d # e # _) =
     (if isDigit a \<and> isDigit b \<and> isDigit c \<and> isDigit d \<and> isDigit e then Some [a, b, c]
      else None)"
| "zipMatches _ = None"

text \<open>
  The \<open>for ... in boroRegexes\<close> loop: the first borough code one of whose patterns
  matches the whole token.
\<close>

definition boroRegexLookup :: "string \<Rightarrow> nat option" where
  "boroRegexLookup finalToken =
     map_option fst
       (find (\<lambda>(boroKey, ps). list_ex (wholeStringMatchesPattern finalToken) ps) boroRegexes)"

record rstate =
  r_tokens :: "string list"
  r_boro :: nat
  r_zipBoro :: nat
  r_foundNy :: bool
  r_postcode :: string

definition initialState :: "string list \<Rightarrow> rstate" where
  "initialState ts =
     \<lparr>r_tokens = ts, r_boro = 9, r_zipBoro = 9, r_foundNy = False, r_postcode = []\<rparr>"

text \<open>\<open>zipPrefixBoros[zipMatches[1]] ?? 7\<close>\<close>

definition zipBoroOf :: "string \<Rightarrow> nat" where
  "zipBoroOf prefix = (case map_of zipPrefixBoros prefix of Some b \<Rightarrow> b | None \<Rightarrow> 7)"

text \<open>
  The borough code of a token: \<open>simpleBoros[finalToken] ?? 9\<close> and, when that is 9,
  the code of the first multi-word pattern that matches, else 9.
\<close>

definition tokenBoro :: "string \<Rightarrow> nat" where
  "tokenBoro finalToken =
     (case map_of simpleBoros finalToken of
        Some b \<Rightarrow> if b = 9 then (case boroRegexLookup finalToken of Some k \<Rightarrow> k | None \<Rightarrow> 9) else b
      | None \<Rightarrow> (case boroRegexLookup finalToken of Some k \<Rightarrow> k | None \<Rightarrow> 9))"

text \<open>The loop that goes backwards through the tokens.\<close>

function resolveLoop :: "nat \<Rightarrow> rstate \<Rightarrow> rstate" where
  "resolveLoop n st =
     (if int (length (r_tokens st)) - int n > 1 then
        (let finalToken = last (r_tokens st) in
         if r_zipBoro st = 9 \<and> zipMatches finalToken \<noteq> None then
           resolveLoop n
             (st\<lparr>r_postcode := finalToken,
                 r_zipBoro := zipBoroOf (the (zipMatches finalToken)),
                 r_tokens := butlast (r_tokens st)\<rparr>)
         else
           (let boro = tokenBoro finalToken in
            if boro = 9 then st\<lparr>r_boro := boro\<rparr>
            else
              (let st' = st\<lparr>r_boro := boro,
                             r_foundNy := (r_foundNy st \<or> boro = 6),
                             r_tokens := butlast (r_tokens st)\<rparr>
               in if boro < 6 then st' else resolveLoop n st')))
      else st)"
  by pat_completeness auto
termination
  by (relation "measure (\<lambda>(n, st). length (r_tokens st))") auto

declare resolveLoop.simps [simp del]

text \<open>The choice of the borough after the loop.\<close>

definition fallbackBoro :: "rstate \<Rightarrow> nat" where
  "fallbackBoro st =
     (if r_boro st > 5 then
        (if r_zipBoro st < 6 then r_zipBoro st
         else if r_foundNy st then 1
         else r_boro st)
      else r_boro st)"


section \<open>Step 4: housenumber and street, the Marble Hill checks, the output\<close>

text \<open>The ambiguous first street token that moves to the housenumber.\<close>

definition reclassify :: "nat \<Rightarrow> string list \<Rightarrow> nat" where
  "reclassify n ts =
     (if n > 0 then
        (if int (length ts) - int n > 1
            \<and> tokenAt ts n \<in> set ambiguousTokens
            \<and> tokenAt ts (n + 1) \<notin> set [''ST'', ''AV'', ''AVE'', ''AVENUE'']
         then n + 1
         else n)
      else n)"

text \<open>\<open>tokens.join(' ')\<close>\<close>

fun joinSp :: "string list \<Rightarrow> string" where
  "joinSp [] = []"
| "joinSp [t] = t"
| "joinSp (t # ts) = t @ '' '' @ joinSp ts"

text \<open>
  \<open>parseInt(str)\<close> for a string that begins with a digit: the hexadecimal digits after
  \<open>0X\<close>, or else the leading decimal digits; \<open>None\<close> is \<open>NaN\<close>. The value is the exact
  integer, which the comparisons of this program cannot tell from the engine's double.
\<close>

definition digitValue :: "char \<Rightarrow> int" where
  "digitValue c =
     (case map_of
        [(CHR ''0'', 0), (CHR ''1'', 1), (CHR ''2'', 2), (CHR ''3'', 3), (CHR ''4'', 4),
         (CHR ''5'', 5), (CHR ''6'', 6), (CHR ''7'', 7), (CHR ''8'', 8), (CHR ''9'', 9),
         (CHR ''A'', 10), (CHR ''B'', 11), (CHR ''C'', 12), (CHR ''D'', 13), (CHR ''E'', 14),
         (CHR ''F'', 15)] c of
        Some d \<Rightarrow> d
      | None \<Rightarrow> 0)"

definition numberOf :: "int \<Rightarrow> string \<Rightarrow> int" where
  "numberOf radix ds = foldl (\<lambda>v c. v * radix + digitValue c) 0 ds"

definition parseInt :: "string \<Rightarrow> int option" where
  "parseInt str =
     (case stripPrefix ''0X'' str of
        Some rest \<Rightarrow>
          (let ds = takeWhile (\<lambda>c. c \<in> set ''0123456789ABCDEFabcdef'') rest
           in if ds = [] then None else Some (numberOf 16 (toUpperCase ds)))
      | None \<Rightarrow>
          (let ds = takeWhile isDigit str
           in if ds = [] then None else Some (numberOf 10 ds)))"

text \<open>\<open>/MARBLE HI?L?L HOUSES( B(UI)?LDI?N?G (\d+))?/\<close>, the third group being the one read.\<close>

definition mhhRegex :: rx where
  "mhhRegex =
     seqs [Lit ''MARBLE H'', OptL ''I'', OptL ''L'', Lit ''L HOUSES'',
           Opt (seqs [Lit '' B'', OptL ''UI'', Lit ''LD'', OptL ''I'', OptL ''N'', Lit ''G '',
                      Cap (Plus CDigit)])]"

text \<open>\<open>streetText.match(...)\<close>: \<open>None\<close> for no match, else the third group.\<close>

definition mhhMatches :: "string \<Rightarrow> string option option" where
  "mhhMatches streetText = map_option (\<lambda>(w, cap, t). cap) (searchFirst mhhRegex False streetText)"

definition marbleHillStreetRegexes :: "rx list" where
  "marbleHillStreetRegexes =
    [seqs [Lit ''ADRIAN AV'', OptL ''E'', OptL ''NUE''],
     seqs [Lit ''F'', OptL ''O'', OptL ''R'', Lit ''T CHARLES PL'', OptL ''ACE''],
     seqs [Lit ''JACOBUS PL'', OptL ''ACE''],
     seqs [Lit ''TERRACE V'', OptL ''IE'', Lit ''W AV'', OptL ''E'', OptL ''NUE''],
     seqs [Lit ''VAN CORLEAR PL'', OptL ''ACE''],
     seqs [Lit ''METRO NORTH-MARBLE H'', OptL ''I'', OptL ''L'', Lit ''L''],
     seqs [Lit ''BROADWAY BR'', OptL ''I'', Lit ''DG'', OptL ''E''],
     seqs [Lit ''MARBLE H'', OptL ''I'', OptL ''L'', Lit ''L L'', OptL ''A'', Lit ''N'', OptL ''E''],
     seqs [Lit ''ATMOSPHERE CHARTER SCH'', OptL ''OO'', OptL ''L''],
     seqs [OptL ''THE '', Lit ''SHOPS AT MARBLE H'', OptL ''I'', OptL ''L'', Lit ''L''],
     seqs [Lit ''IRT-1-MARBLE H'', OptL ''I'', OptL ''L'', Lit ''L-225 STREET'']]"

text \<open>\<open>'(W(EST)? )?22[578](TH)?( STR?(EET)?)?'\<close>\<close>

definition west22xRegex :: rx where
  "west22xRegex =
     seqs [Opt (seqs [Lit ''W'', OptL ''EST'', Lit '' '']), Lit ''22'', Cls (CChars ''578''),
           OptL ''TH'', Opt (seqs [Lit '' ST'', OptL ''R'', OptL ''EET''])]"

text \<open>The condition of the third check on the housenumber, \<open>None\<close> failing every comparison.\<close>

definition thirdCheck :: "string \<Rightarrow> int option \<Rightarrow> nat \<Rightarrow> bool" where
  "thirdCheck streetText housenumberInt boro =
     (case housenumberInt of
        None \<Rightarrow> False
      | Some h \<Rightarrow>
          (streetText = ''BROADWAY'' \<and>
            (h = 5485 \<or>
             (h \<ge> 5170 \<and> h \<le> 5300) \<or>
             (h \<ge> 5301 \<and> h \<le> 5320 \<and> boro < 3) \<or>
             (h \<ge> 5321 \<and> h \<le> 5400) \<or>
             (h \<ge> 5401 \<and> h \<le> 5321 \<and> boro < 3) \<or>
             (h \<ge> 5421 \<and> h \<le> 5480)))
          \<or>
          (wholeStringMatchesPattern streetText west22xRegex \<and> h \<ge> 40 \<and> h \<le> 176))"

datatype error = TypeError

text \<open>
  The Marble Hill checks: the borough and the flag \<open>marbleHill\<close> after them. Reading
  \<open>tokens[0]\<close> when there is no token is the \<open>TypeError\<close> of the source.
\<close>

definition marbleHillChecks ::
  "string \<Rightarrow> nat \<Rightarrow> nat \<Rightarrow> string list \<Rightarrow> string \<Rightarrow> error + nat \<times> bool" where
  "marbleHillChecks postcode boro housenumberTokenCount tokens streetText =
     (if (postcode = [] \<or> stripPrefix ''10463'' postcode \<noteq> None) \<and> boro \<notin> set [3, 4, 5] then
        (case mhhMatches streetText of
           Some grp \<Rightarrow>
             if grp \<in> set [Some ''4'', Some ''5'', Some ''6'', Some ''11''] then Inr (2, False)
             else Inr (1, True)
         | None \<Rightarrow>
             if list_ex (wholeStringMatchesPattern streetText) marbleHillStreetRegexes
             then Inr (1, True)
             else if housenumberTokenCount > 0 then
               (case tokens of
                  [] \<Rightarrow> Inl TypeError
                | t0 # _ \<Rightarrow>
                    if CHR ''-'' \<notin> set t0 \<and> thirdCheck streetText (parseInt t0) boro
                    then Inr (1, True)
                    else Inr (boro, False))
             else Inr (boro, False))
      else Inr (boro, False))"

record parsed =
  housenumber :: "string option"
  street :: "string option"
  borough :: "nat option"
  postcode :: "string option"
  marble_hill :: "bool option"

text \<open>Steps 2 to 4 on the tokens.\<close>

definition parseTokens :: "string list \<Rightarrow> error + parsed" where
  "parseTokens ts =
     (let n0 = countHousenumberTokens ts;
          st = resolveLoop n0 (initialState ts);
          boro = fallbackBoro st;
          tokens = r_tokens st;
          n = reclassify n0 tokens;
          housenumberText = joinSp (take n tokens);
          streetText = joinSp (drop n tokens)
      in case marbleHillChecks (r_postcode st) boro n tokens streetText of
           Inl e \<Rightarrow> Inl e
         | Inr (boro', marbleHill) \<Rightarrow>
             Inr \<lparr>housenumber = (if n0 > 0 \<and> housenumberText \<noteq> [] then Some housenumberText
                                 else None),
                  street = (if streetText \<noteq> [] then Some streetText else None),
                  borough = (if boro' < 6 then Some boro' else None),
                  postcode = (if r_postcode st \<noteq> [] then Some (r_postcode st) else None),
                  marble_hill = (if marbleHill then Some True else None)\<rparr>)"

definition parseNycAddress :: "string \<Rightarrow> error + parsed" where
  "parseNycAddress input = parseTokens (tokenize input)"


section \<open>Names for the stages\<close>

text \<open>The state after the loop of step 3, and the tokens it has left.\<close>

definition resolved :: "string list \<Rightarrow> rstate" where
  "resolved ts = resolveLoop (countHousenumberTokens ts) (initialState ts)"

definition keptTokens :: "string list \<Rightarrow> string list" where
  "keptTokens ts = r_tokens (resolved ts)"

text \<open>The housenumber token count of step 4.\<close>

definition finalCount :: "string list \<Rightarrow> nat" where
  "finalCount ts = reclassify (countHousenumberTokens ts) (keptTokens ts)"

text \<open>An output field that is left out when its text is empty.\<close>

definition optText :: "string \<Rightarrow> string option" where
  "optText s = (if s = [] then None else Some s)"

text \<open>
  The words of the specification for step 2: a token after the first is absorbed when
  it is an unambiguous housenumber token, or an ambiguous one followed by a token of
  either list. The pair is the token and the token after it (empty when there is none).
\<close>

definition absorbed :: "string \<times> string \<Rightarrow> bool" where
  "absorbed p =
     (fst p \<in> set housenumberTokens
      \<or> (fst p \<in> set ambiguousTokens \<and> snd p \<in> set housenumberTokens \<union> set ambiguousTokens))"


text \<open>The street text that the Marble Hill checks read.\<close>

definition streetTextOf :: "string list \<Rightarrow> string" where
  "streetTextOf ts = joinSp (drop (finalCount ts) (keptTokens ts))"

text \<open>
  The condition under which the Marble Hill checks run: the postcode is empty or begins
  with 10463, and the borough chosen after the loop is not 3, 4 or 5.
\<close>

definition overrideApplies :: "string list \<Rightarrow> bool" where
  "overrideApplies ts =
     ((r_postcode (resolved ts) = [] \<or> stripPrefix ''10463'' (r_postcode (resolved ts)) \<noteq> None)
      \<and> fallbackBoro (resolved ts) \<notin> set [3, 4, 5])"

text \<open>The words of the specification: a token that begins with five digits.\<close>

definition beginsWithFiveDigits :: "string \<Rightarrow> bool" where
  "beginsWithFiveDigits t = (5 \<le> length t \<and> list_all isDigit (take 5 t))"

text \<open>
  The words of the specification: the housenumber and street fields of a record, each
  empty when absent, joined by a single space.
\<close>

definition concatFields :: "parsed \<Rightarrow> string" where
  "concatFields r =
     (case housenumber r of None \<Rightarrow> [] | Some h \<Rightarrow> h) @ '' '' @
     (case street r of None \<Rightarrow> [] | Some s \<Rightarrow> s)"


section \<open>Counting characters in matches\<close>

text \<open>
  Bounds on what a match of an expression reads, used to tell the texts of two
  expressions apart: the least length, and the least and the greatest number of
  characters of a given list (\<open>None\<close>: no bound).
\<close>

definition countIn :: "string \<Rightarrow> string \<Rightarrow> nat" where
  "countIn cs x = length (filter (\<lambda>c. c \<in> set cs) x)"

fun minLen :: "rx \<Rightarrow> nat" where
  "minLen (Lit x) = length x"
| "minLen (Cls k) = 1"
| "minLen (Seq a b) = minLen a + minLen b"
| "minLen (Opt a) = 0"
| "minLen (Star k) = 0"
| "minLen (Plus k) = 1"
| "minLen WordB = 0"
| "minLen Eos = 0"
| "minLen (Cap a) = minLen a"

fun minCount :: "string \<Rightarrow> rx \<Rightarrow> nat" where
  "minCount cs (Lit x) = countIn cs x"
| "minCount cs (Cls k) = 0"
| "minCount cs (Seq a b) = minCount cs a + minCount cs b"
| "minCount cs (Opt a) = 0"
| "minCount cs (Star k) = 0"
| "minCount cs (Plus k) = 0"
| "minCount cs WordB = 0"
| "minCount cs Eos = 0"
| "minCount cs (Cap a) = minCount cs a"

fun maxCount :: "string \<Rightarrow> rx \<Rightarrow> nat option" where
  "maxCount cs (Lit x) = Some (countIn cs x)"
| "maxCount cs (Cls k) = Some (if list_ex (inClass k) cs then 1 else 0)"
| "maxCount cs (Seq a b) =
     (case maxCount cs a of
        None \<Rightarrow> None
      | Some m \<Rightarrow> (case maxCount cs b of None \<Rightarrow> None | Some n \<Rightarrow> Some (m + n)))"
| "maxCount cs (Opt a) = maxCount cs a"
| "maxCount cs (Star k) = (if list_ex (inClass k) cs then None else Some 0)"
| "maxCount cs (Plus k) = (if list_ex (inClass k) cs then None else Some 0)"
| "maxCount cs WordB = Some 0"
| "maxCount cs Eos = Some 0"
| "maxCount cs (Cap a) = maxCount cs a"

text \<open>The text \<open>x\<close> respects the three bounds of \<open>r\<close>.\<close>

definition withinBounds :: "string \<Rightarrow> rx \<Rightarrow> string \<Rightarrow> bool" where
  "withinBounds cs r x =
     (minLen r \<le> length x \<and> minCount cs r \<le> countIn cs x
      \<and> (case maxCount cs r of None \<Rightarrow> True | Some m \<Rightarrow> countIn cs x \<le> m))"

text \<open>Every match of \<open>r\<close> has fewer characters of \<open>cs\<close> than any match of \<open>q\<close>.\<close>

definition separates :: "string \<Rightarrow> rx \<Rightarrow> rx \<Rightarrow> bool" where
  "separates cs r q = (case maxCount cs r of None \<Rightarrow> False | Some m \<Rightarrow> m < minCount cs q)"

text \<open>Character lists that tell the tokens from the Marble Hill texts.\<close>

definition separators :: "string list" where
  "separators =
     ['' '', ''A'', ''CORL'', ''HOSLR'', ''B'', ''D'', ''R'', ''N'', ''V'', ''ADRI'', ''TERRAC'']"


section \<open>Texts and their tokens\<close>

text \<open>The text that is matched against the tokenizer: the input cleaned and in upper case.\<close>

definition cleanText :: "string \<Rightarrow> string" where
  "cleanText input = toUpperCase (trim (replaceAll cleanRegex '' '' False input))"

text \<open>A character that the cleaning keeps wherever it stands.\<close>

definition textChar :: "char \<Rightarrow> bool" where
  "textChar c = (\<not> isSpace c \<and> c \<noteq> CHR '','' \<and> c \<noteq> CHR ''.'')"

text \<open>A text without two spaces in a row.\<close>

definition singleSpaced :: "string \<Rightarrow> bool" where
  "singleSpaced s = successively (\<lambda>a b. \<not> (a = CHR '' '' \<and> b = CHR '' '')) s"

text \<open>The characters of \<open>[\s,]\<close> and of \<open>\.\<close> in the cleaning expression.\<close>

definition isSep :: "char \<Rightarrow> bool" where
  "isSep c = (isSpace c \<or> c = CHR '','')"

definition isDot :: "char \<Rightarrow> bool" where
  "isDot c = (c = CHR ''.'')"

text \<open>
  The shape of a cleaned text: its only white space is the space, it has no comma, no
  full stop stands before a space, and none stands at the end.
\<close>

definition cleanShape :: "string \<Rightarrow> bool" where
  "cleanShape x =
     ((\<forall>c\<in>set x. isSep c \<longrightarrow> c = CHR '' '')
      \<and> successively (\<lambda>a b. \<not> (a = CHR ''.'' \<and> b = CHR '' '')) x
      \<and> (x \<noteq> [] \<longrightarrow> last x \<noteq> CHR ''.''))"

text \<open>An expression without the end anchor and without a capturing group.\<close>

fun plain :: "rx \<Rightarrow> bool" where
  "plain (Seq a b) = (plain a \<and> plain b)"
| "plain (Opt a) = plain a"
| "plain Eos = False"
| "plain (Cap a) = False"
| "plain _ = True"


section \<open>Evaluation\<close>

text \<open>The word characters by their bits, for evaluating the tokenizer.\<close>

lemma isWordChar_bits [code]:
  "isWordChar (Char b0 b1 b2 b3 b4 b5 b6 b7) =
     (\<not> b7 \<and>
      (if b6 then
         ((b0 \<or> b1 \<or> b2 \<or> b3 \<or> b4) \<and> \<not> (b4 \<and> b3 \<and> (b2 \<or> (b1 \<and> b0))))
         \<or> (\<not> b5 \<and> b0 \<and> b1 \<and> b2 \<and> b3 \<and> b4)
       else b5 \<and> b4 \<and> \<not> (b3 \<and> (b2 \<or> b1))))"
  unfolding isWordChar_def
  by (cases b0; cases b1; cases b2; cases b3; cases b4; cases b5; cases b6; cases b7) simp_all


section \<open>The tables and the loop of step 3\<close>

lemma simpleBoros_range: "map_of simpleBoros t = Some b \<Longrightarrow> 1 \<le> b \<and> b \<le> 7"
  by (drule map_of_SomeD) (auto simp: simpleBoros_def)

lemma zipPrefixBoros_range: "map_of zipPrefixBoros p = Some b \<Longrightarrow> 1 \<le> b \<and> b \<le> 5"
  by (drule map_of_SomeD) (auto simp: zipPrefixBoros_def)

lemma boroRegexLookup_range: 
  assumes "boroRegexLookup t = Some b" shows "1 \<le> b \<and> b \<le> 7"
proof -
  from assms obtain x where "find (\<lambda>(boroKey, ps). list_ex (wholeStringMatchesPattern t) ps) boroRegexes = Some x" and "b = fst x"
    unfolding boroRegexLookup_def by auto
  then have "x \<in> set boroRegexes"
    by (metis find_Some_iff nth_mem)
  then have "b \<in> fst ` set boroRegexes" using \<open>b = fst x\<close> by simp
  also have "fst ` set boroRegexes = {1, 2, 4, 5, 6, 7}"
    by (simp add: boroRegexes_def)
  finally show ?thesis by auto
qed

lemma tokenBoro_range: "1 \<le> tokenBoro t \<and> tokenBoro t \<le> 9"
  unfolding tokenBoro_def
  using simpleBoros_range [of t] boroRegexLookup_range [of t]
  by (auto split: option.splits) 

lemma zipBoroOf_range: "1 \<le> zipBoroOf p \<and> zipBoroOf p \<le> 7"
  unfolding zipBoroOf_def using zipPrefixBoros_range [of p]
  by (auto split: option.splits)

lemma resolveLoop_rule:
  assumes init: "P st"
    and zip: "\<And>s. P s \<Longrightarrow> int (length (r_tokens s)) - int n > 1 \<Longrightarrow> r_zipBoro s = 9 \<Longrightarrow>
                zipMatches (last (r_tokens s)) \<noteq> None \<Longrightarrow>
                P (s\<lparr>r_postcode := last (r_tokens s),
                     r_zipBoro := zipBoroOf (the (zipMatches (last (r_tokens s)))),
                     r_tokens := butlast (r_tokens s)\<rparr>)"
    and pop: "\<And>s. P s \<Longrightarrow> int (length (r_tokens s)) - int n > 1 \<Longrightarrow>
                \<not> (r_zipBoro s = 9 \<and> zipMatches (last (r_tokens s)) \<noteq> None) \<Longrightarrow>
                tokenBoro (last (r_tokens s)) \<noteq> 9 \<Longrightarrow>
                P (s\<lparr>r_boro := tokenBoro (last (r_tokens s)),
                     r_foundNy := (r_foundNy s \<or> tokenBoro (last (r_tokens s)) = 6),
                     r_tokens := butlast (r_tokens s)\<rparr>)"
    and brk: "\<And>s. P s \<Longrightarrow> int (length (r_tokens s)) - int n > 1 \<Longrightarrow>
                \<not> (r_zipBoro s = 9 \<and> zipMatches (last (r_tokens s)) \<noteq> None) \<Longrightarrow>
                tokenBoro (last (r_tokens s)) = 9 \<Longrightarrow>
                P (s\<lparr>r_boro := 9\<rparr>)"
  shows "P (resolveLoop n st)"
  using assms
proof (induction n st rule: resolveLoop.induct)
  case (1 n st)
  note init = "1.prems"(1) and zip = "1.prems"(2) and pop = "1.prems"(3) and brk = "1.prems"(4)
  show ?case
  proof (cases "int (length (r_tokens st)) - int n > 1")
    case False
    then show ?thesis using init by (subst resolveLoop.simps) simp
  next
    case long: True
    show ?thesis
    proof (cases "r_zipBoro st = 9 \<and> zipMatches (last (r_tokens st)) \<noteq> None")
      case True
      have "P (resolveLoop n (st\<lparr>r_postcode := last (r_tokens st),
                     r_zipBoro := zipBoroOf (the (zipMatches (last (r_tokens st)))),
                     r_tokens := butlast (r_tokens st)\<rparr>))"
        by (rule "1.IH"(1) [OF long refl True]) (use True in \<open>auto intro: zip pop brk init long\<close>)
      then show ?thesis using long True
        by (subst resolveLoop.simps) (auto simp add: Let_def)
    next
      case nozip: False
      show ?thesis
      proof (cases "tokenBoro (last (r_tokens st)) = 9")
        case True
        then show ?thesis
          using brk [OF init long nozip True] long nozip
          by (subst resolveLoop.simps) (auto simp add: Let_def)
      next
        case False
        have p: "P (st\<lparr>r_boro := tokenBoro (last (r_tokens st)),
                     r_foundNy := (r_foundNy st \<or> tokenBoro (last (r_tokens st)) = 6),
                     r_tokens := butlast (r_tokens st)\<rparr>)"
          by (rule pop [OF init long nozip False])
        show ?thesis
        proof (cases "tokenBoro (last (r_tokens st)) < 6")
          case True
          then show ?thesis using p long nozip False
            by (subst resolveLoop.simps) (auto simp add: Let_def)
        next
          case big: False
          have "P (resolveLoop n (st\<lparr>r_boro := tokenBoro (last (r_tokens st)),
                     r_foundNy := (r_foundNy st \<or> tokenBoro (last (r_tokens st)) = 6),
                     r_tokens := butlast (r_tokens st)\<rparr>))"
            by (rule "1.IH"(2) [OF long refl nozip refl False refl big]) (auto intro: zip pop brk p)
          then show ?thesis using long nozip False big
            by (subst resolveLoop.simps) (auto simp add: Let_def)
        qed
      qed
    qed
  qed
qed


lemma resolveLoop_tokens_length:
  "n < length (r_tokens st) \<Longrightarrow> n < length (r_tokens (resolveLoop n st))"
  by (rule resolveLoop_rule [where P = "\<lambda>s. n < length (r_tokens s)"]) auto

lemma resolveLoop_tokens_nonempty:
  "r_tokens st \<noteq> [] \<Longrightarrow> r_tokens (resolveLoop n st) \<noteq> []"
proof (rule resolveLoop_rule [where P = "\<lambda>s. r_tokens s \<noteq> []"])
  fix s :: rstate
  assume "1 < int (length (r_tokens s)) - int n"
  then have "butlast (r_tokens s) \<noteq> []"
    by (cases "r_tokens s" rule: rev_cases) auto
  then show "r_tokens (s\<lparr>r_postcode := last (r_tokens s),
                     r_zipBoro := zipBoroOf (the (zipMatches (last (r_tokens s)))),
                     r_tokens := butlast (r_tokens s)\<rparr>) \<noteq> []"
    and "r_tokens (s\<lparr>r_boro := tokenBoro (last (r_tokens s)),
                     r_foundNy := (r_foundNy s \<or> tokenBoro (last (r_tokens s)) = 6),
                     r_tokens := butlast (r_tokens s)\<rparr>) \<noteq> []"
    by simp_all
qed auto

lemma resolveLoop_prefix:
  "\<exists>k. r_tokens (resolveLoop n st) = take k (r_tokens st)"
proof (rule resolveLoop_rule [where P = "\<lambda>s. \<exists>k. r_tokens s = take k (r_tokens st)"])
  show "\<exists>k. r_tokens st = take k (r_tokens st)"
    by (rule exI [of _ "length (r_tokens st)"]) simp
next
  fix s :: rstate
  assume "\<exists>k. r_tokens s = take k (r_tokens st)"
  then obtain k where k: "r_tokens s = take k (r_tokens st)" ..
  have "butlast (r_tokens s) = take (length (r_tokens s) - 1) (r_tokens s)"
    by (simp add: butlast_conv_take)
  also have "\<dots> = take (min (length (r_tokens s) - 1) k) (r_tokens st)"
    by (subst k) (simp only: take_take)
  finally have "butlast (r_tokens s) = take (min (length (r_tokens s) - 1) k) (r_tokens st)" .
  then show "\<exists>k. r_tokens (s\<lparr>r_postcode := last (r_tokens s),
                     r_zipBoro := zipBoroOf (the (zipMatches (last (r_tokens s)))),
                     r_tokens := butlast (r_tokens s)\<rparr>) = take k (r_tokens st)"
    and "\<exists>k. r_tokens (s\<lparr>r_boro := tokenBoro (last (r_tokens s)),
                     r_foundNy := (r_foundNy s \<or> tokenBoro (last (r_tokens s)) = 6),
                     r_tokens := butlast (r_tokens s)\<rparr>) = take k (r_tokens st)"
    by auto
  show "\<exists>k. r_tokens (s\<lparr>r_boro := 9\<rparr>) = take k (r_tokens st)"
    using k by auto
qed

lemma resolveLoop_ranges:
  assumes "1 \<le> r_boro st" and "1 \<le> r_zipBoro st"
  shows "1 \<le> r_boro (resolveLoop n st) \<and> 1 \<le> r_zipBoro (resolveLoop n st)"
  by (rule resolveLoop_rule [where P = "\<lambda>s. 1 \<le> r_boro s \<and> 1 \<le> r_zipBoro s"])
     (use assms tokenBoro_range zipBoroOf_range in auto)

lemma fallbackBoro_ge1:
  "1 \<le> r_boro st \<Longrightarrow> 1 \<le> r_zipBoro st \<Longrightarrow> 1 \<le> fallbackBoro st"
  by (simp add: fallbackBoro_def)

lemma marbleHillChecks_cases:
  assumes "marbleHillChecks pc b n toks s = Inr (b', mh)"
  shows "(mh \<and> b' = 1) \<or> (\<not> mh \<and> (b' = b \<or> b' = 2))"
  using assms unfolding marbleHillChecks_def
  by (auto split: if_splits option.splits list.splits)

lemma marbleHillChecks_total:
  "toks \<noteq> [] \<or> n = 0 \<Longrightarrow> \<exists>x. marbleHillChecks pc b n toks s = Inr x"
  unfolding marbleHillChecks_def
  by (auto split: if_splits option.splits list.splits)


section \<open>Step 2 as the longest absorbed prefix\<close>

lemma zip_drop_step:
  assumes "n < length ts"
  shows "zip (drop n ts) (drop (Suc n) ts @ [[]]) =
           (ts ! n, tokenAt ts (Suc n)) # zip (drop (Suc n) ts) (drop (Suc (Suc n)) ts @ [[]])"
proof -
  have a: "drop n ts = ts ! n # drop (Suc n) ts"
    using assms by (simp add: Cons_nth_drop_Suc)
  show ?thesis
  proof (cases "Suc n < length ts")
    case True
    then have "drop (Suc n) ts = ts ! Suc n # drop (Suc (Suc n)) ts"
      by (simp add: Cons_nth_drop_Suc)
    then have "drop (Suc n) ts @ [[]] = tokenAt ts (Suc n) # (drop (Suc (Suc n)) ts @ [[]])"
      using True by (simp add: tokenAt_def)
    then show ?thesis by (subst a) simp
  next
    case False
    then show ?thesis by (subst a) (simp add: tokenAt_def)
  qed
qed

lemma countLoop_step:
  "countLoop ts n =
     (if n < length ts \<and> absorbed (ts ! n, tokenAt ts (Suc n)) then countLoop ts (Suc n) else n)"
  by (subst countLoop.simps) (auto simp add: absorbed_def)

lemma countLoop_takeWhile:
  "n \<le> length ts \<Longrightarrow>
   countLoop ts n = n + length (takeWhile absorbed (zip (drop n ts) (drop (Suc n) ts @ [[]])))"
proof (induction ts n rule: countLoop.induct)
  case (1 ts n)
  show ?case
  proof (cases "n < length ts")
    case False
    with "1.prems" have "n = length ts" by simp
    then show ?thesis by (subst countLoop_step) simp
  next
    case True
    note lt = this
    show ?thesis
    proof (cases "absorbed (ts ! n, tokenAt ts (Suc n))")
      case True
      then have cond: "ts ! n \<in> set housenumberTokens \<or>
          ts ! n \<in> set ambiguousTokens \<and>
          tokenAt ts (n + 1) \<in> set (housenumberTokens @ ambiguousTokens)"
        by (simp add: absorbed_def)
      have "countLoop ts n = countLoop ts (Suc n)"
        using True lt by (subst countLoop_step) simp
      also have "\<dots> = Suc n + length (takeWhile absorbed
                   (zip (drop (Suc n) ts) (drop (Suc (Suc n)) ts @ [[]])))"
        using "1.IH" [OF lt cond] lt by simp
      finally show ?thesis
        using True by (simp add: zip_drop_step [OF lt])
    next
      case False
      then have "countLoop ts n = n"
        by (subst countLoop_step) simp
      then show ?thesis
        using False by (simp add: zip_drop_step [OF lt])
    qed
  qed
qed

text \<open>
  Claim C6: the housenumber classifier returns 0 when the first token does not begin
  with a digit (or there is no token); otherwise 1 plus the length of the longest
  prefix of the tokens after the first in which each token is an unambiguous
  housenumber token, or an ambiguous one whose next token is of either list. A last
  ambiguous token has the empty next token and is not absorbed.
\<close>

theorem countHousenumberTokens_longest_prefix:
  "countHousenumberTokens ts =
     (case ts of
        [] \<Rightarrow> 0
      | t # rest \<Rightarrow>
          if beginsWithDigit t
          then 1 + length (takeWhile absorbed (zip rest (tl rest @ [[]])))
          else 0)"
proof (cases ts)
  case Nil
  then show ?thesis by (simp add: countHousenumberTokens_def tokenAt_def)
next
  case (Cons t rest)
  have "countLoop (t # rest) 1 = 1 + length (takeWhile absorbed (zip rest (tl rest @ [[]])))"
    using countLoop_takeWhile [of 1 "t # rest"] by (simp add: drop_Suc)
  then show ?thesis
    using Cons by (simp add: countHousenumberTokens_def tokenAt_def)
qed


section \<open>The stages of the parser\<close>

lemma countLoop_bounds: "n \<le> length ts \<Longrightarrow> n \<le> countLoop ts n \<and> countLoop ts n \<le> length ts"
proof (induction ts n rule: countLoop.induct)
  case (1 ts n)
  show ?case
  proof (cases "n < length ts \<and> absorbed (ts ! n, tokenAt ts (Suc n))")
    case True
    then have cond: "ts ! n \<in> set housenumberTokens \<or>
          ts ! n \<in> set ambiguousTokens \<and>
          tokenAt ts (n + 1) \<in> set (housenumberTokens @ ambiguousTokens)"
      by (simp add: absorbed_def)
    have "countLoop ts n = countLoop ts (Suc n)"
      using True by (subst countLoop_step) simp
    then show ?thesis using "1.IH" [OF _ cond] True by simp
  next
    case False
    then have "countLoop ts n = n" by (subst countLoop_step) auto
    then show ?thesis using "1.prems" by simp
  qed
qed

lemma countHousenumberTokens_le: "countHousenumberTokens ts \<le> length ts"
  using countLoop_bounds [of 1 ts]
  by (cases ts) (auto simp: countHousenumberTokens_def tokenAt_def)

lemma countHousenumberTokens_pos: "0 < countHousenumberTokens ts \<Longrightarrow> ts \<noteq> []"
  by (auto simp: countHousenumberTokens_def tokenAt_def split: if_splits)

lemma keptTokens_prefix: "\<exists>k. keptTokens ts = take k ts"
  using resolveLoop_prefix [of "countHousenumberTokens ts" "initialState ts"]
  by (simp add: keptTokens_def resolved_def initialState_def)

lemma keptTokens_nonempty: "ts \<noteq> [] \<Longrightarrow> keptTokens ts \<noteq> []"
  using resolveLoop_tokens_nonempty [of "initialState ts" "countHousenumberTokens ts"]
  by (simp add: keptTokens_def resolved_def initialState_def)

lemma resolved_ranges: "1 \<le> fallbackBoro (resolved ts)"
proof -
  have "1 \<le> r_boro (initialState ts)" and "1 \<le> r_zipBoro (initialState ts)"
    by (simp_all add: initialState_def)
  from resolveLoop_ranges [OF this, of "countHousenumberTokens ts"] show ?thesis
    unfolding resolved_def by (blast intro: fallbackBoro_ge1)
qed

lemma parseTokens_stages:
  "parseTokens ts =
     (case marbleHillChecks (r_postcode (resolved ts)) (fallbackBoro (resolved ts)) (finalCount ts)
             (keptTokens ts) (joinSp (drop (finalCount ts) (keptTokens ts))) of
        Inl e \<Rightarrow> Inl e
      | Inr (boro', marbleHill) \<Rightarrow>
          Inr \<lparr>housenumber = optText (joinSp (take (finalCount ts) (keptTokens ts))),
               street = optText (joinSp (drop (finalCount ts) (keptTokens ts))),
               borough = (if boro' < 6 then Some boro' else None),
               postcode = optText (r_postcode (resolved ts)),
               marble_hill = (if marbleHill then Some True else None)\<rparr>)"
proof -
  have "countHousenumberTokens ts = 0 \<Longrightarrow> finalCount ts = 0"
    by (simp add: finalCount_def reclassify_def)
  then show ?thesis
    unfolding parseTokens_def Let_def finalCount_def [symmetric] keptTokens_def [symmetric]
      resolved_def [symmetric] optText_def
    by (cases "countHousenumberTokens ts = 0")
       (auto simp: keptTokens_def finalCount_def split: sum.splits prod.splits)
qed


lemma parseTokens_total: "\<exists>r. parseTokens ts = Inr r"
proof -
  have "keptTokens ts \<noteq> [] \<or> finalCount ts = 0"
  proof (cases "countHousenumberTokens ts = 0")
    case True
    then show ?thesis by (simp add: finalCount_def reclassify_def)
  next
    case False
    then have "ts \<noteq> []" using countHousenumberTokens_pos by blast
    then show ?thesis using keptTokens_nonempty by blast
  qed
  from marbleHillChecks_total [OF this]
  obtain x where "marbleHillChecks (r_postcode (resolved ts)) (fallbackBoro (resolved ts))
     (finalCount ts) (keptTokens ts) (joinSp (drop (finalCount ts) (keptTokens ts))) = Inr x"
    by blast
  then show ?thesis
    by (cases x) (simp add: parseTokens_stages)
qed

lemma parseTokens_borough:
  assumes "parseTokens ts = Inr r"
  shows "case borough r of
           None \<Rightarrow> marble_hill r = None
         | Some b \<Rightarrow> b \<in> {1, 2, 3, 4, 5} \<and> (marble_hill r = None \<or> marble_hill r = Some True \<and> b = 1)"
proof -
  obtain b' mh where m: "marbleHillChecks (r_postcode (resolved ts)) (fallbackBoro (resolved ts))
     (finalCount ts) (keptTokens ts) (joinSp (drop (finalCount ts) (keptTokens ts))) = Inr (b', mh)"
    using assms by (auto simp: parseTokens_stages split: sum.splits)
  have r: "borough r = (if b' < 6 then Some b' else None)"
    "marble_hill r = (if mh then Some True else None)"
    using assms m by (auto simp: parseTokens_stages)
  from marbleHillChecks_cases [OF m] resolved_ranges [of ts]
  show ?thesis
    unfolding r by auto
qed


lemma keptTokens_exceeds_count:
  "countHousenumberTokens ts < length ts \<Longrightarrow> countHousenumberTokens ts < length (keptTokens ts)"
  using resolveLoop_tokens_length [of "countHousenumberTokens ts" "initialState ts"]
  by (simp add: keptTokens_def resolved_def initialState_def)

lemma keptTokens_all_housenumber:
  assumes "countHousenumberTokens ts = length ts"
  shows "keptTokens ts = ts"
  unfolding keptTokens_def resolved_def
  by (subst resolveLoop.simps) (simp add: assms initialState_def)

lemma countHousenumberTokens_le_kept: "countHousenumberTokens ts \<le> length (keptTokens ts)"
proof (cases "countHousenumberTokens ts < length ts")
  case True
  then show ?thesis using keptTokens_exceeds_count [of ts] by simp
next
  case False
  then have "countHousenumberTokens ts = length ts"
    using countHousenumberTokens_le [of ts] by simp
  then show ?thesis by (simp add: keptTokens_all_housenumber)
qed

lemma reclassify_eq:
  "reclassify n ts =
     (if 0 < n \<and> n + 1 < length ts \<and> ts ! n \<in> set ambiguousTokens
         \<and> ts ! (n + 1) \<notin> set [''ST'', ''AV'', ''AVE'', ''AVENUE'']
      then n + 1 else n)"
  by (auto simp: reclassify_def tokenAt_def)

lemma finalCount_le_kept: "finalCount ts \<le> length (keptTokens ts)"
  using countHousenumberTokens_le_kept [of ts]
  by (auto simp: finalCount_def reclassify_eq)

lemma parseTokens_fields:
  "\<exists>r. parseTokens ts = Inr r
     \<and> housenumber r = optText (joinSp (take (finalCount ts) (keptTokens ts)))
     \<and> street r = optText (joinSp (drop (finalCount ts) (keptTokens ts)))"
proof -
  obtain r where r: "parseTokens ts = Inr r" using parseTokens_total by blast
  then show ?thesis
    by (auto simp: parseTokens_stages split: sum.splits)
qed


section \<open>Claims on the borough and the resolver\<close>

text \<open>
  Claim C1: for every input string the borough of the output, when present, is one of
  1, 2, 3, 4, 5 (the internal values 6, 7 and 9 never appear), and \<open>marble_hill\<close> is
  present, with the value true, only when the borough is present and equals 1.
\<close>

theorem borough_in_range:
  "\<exists>r. parseNycAddress input = Inr r
     \<and> (case borough r of
          None \<Rightarrow> marble_hill r = None
        | Some b \<Rightarrow>
            b \<in> {1, 2, 3, 4, 5} \<and> (marble_hill r = None \<or> marble_hill r = Some True \<and> b = 1))"
proof -
  obtain r where r: "parseTokens (tokenize input) = Inr r"
    using parseTokens_total by blast
  from parseTokens_borough [OF r] r show ?thesis
    by (auto simp: parseNycAddress_def)
qed

text \<open>
  Claim C8: for every input whose tokens include at least one beyond the housenumber
  count, the loop of step 3 leaves more tokens than the housenumber count: the last
  token that is not part of the housenumber is never removed, whatever it looks like.
\<close>

theorem resolver_leaves_street_token:
  "countHousenumberTokens (tokenize input) < length (tokenize input) \<Longrightarrow>
   countHousenumberTokens (tokenize input) < length (keptTokens (tokenize input))"
  by (rule keptTokens_exceeds_count)

theorem resolver_leaves_street_token_witness:
  "countHousenumberTokens (tokenize ''1 bronx'') < length (tokenize ''1 bronx'')
   \<and> countHousenumberTokens (tokenize ''1 bronx'') < length (keptTokens (tokenize ''1 bronx''))
   \<and> keptTokens (tokenize ''1 bronx'') = [''1'', ''BRONX'']"
proof -
  have t: "tokenize ''1 bronx'' = [''1'', ''BRONX'']" by code_simp
  have c: "countHousenumberTokens (tokenize ''1 bronx'') < length (tokenize ''1 bronx'')"
    unfolding t by code_simp
  have k: "keptTokens [''1'', ''BRONX''] = [''1'', ''BRONX'']" by code_simp
  from resolver_leaves_street_token [OF c] c k show ?thesis unfolding t by simp
qed


section \<open>The ambiguous token of step 4\<close>

text \<open>
  Claim C3 as stated fails when no token was classified as housenumber: the source
  moves the ambiguous token only inside \<open>if (housenumberTokenCount > 0)\<close>. With the
  tokens A, MAIN and the count 0 every condition of the claim holds and the count stays
  0: the input \<open>a main\<close> has no housenumber.
\<close>

theorem reclassify_without_housenumber_counterexample:
  "int (length [''A'', ''MAIN'']) - int 0 > 1
   \<and> tokenAt [''A'', ''MAIN''] 0 \<in> set ambiguousTokens
   \<and> tokenAt [''A'', ''MAIN''] (0 + 1) \<notin> set [''ST'', ''AV'', ''AVE'', ''AVENUE'']
   \<and> reclassify 0 [''A'', ''MAIN''] = 0
   \<and> tokenize ''a main'' = [''A'', ''MAIN'']
   \<and> parseNycAddress ''a main'' =
        Inr \<lparr>housenumber = None, street = Some ''A MAIN'', borough = None, postcode = None,
             marble_hill = None\<rparr>"
  by code_simp

text \<open>
  Claim C3, amended: for every token sequence left after step 3 and every housenumber
  count \<open>n\<close>, the count becomes \<open>n + 1\<close> when \<open>n\<close> is at least 1, more than one token
  remains beyond it, the first of them is one of A, B, C, D, FRONT and the token after
  that is none of ST, AV, AVE, AVENUE; otherwise it stays \<open>n\<close>. The housenumber of the
  output joins that many of the remaining tokens and the street the others.
\<close>

theorem reclassify_with_housenumber:
  "reclassify n ts =
     (if 0 < n \<and> n + 1 < length ts \<and> ts ! n \<in> set ambiguousTokens
         \<and> ts ! (n + 1) \<notin> set [''ST'', ''AV'', ''AVE'', ''AVENUE'']
      then n + 1 else n)
   \<and> finalCount (tokenize input) =
       reclassify (countHousenumberTokens (tokenize input)) (keptTokens (tokenize input))
   \<and> (\<exists>r. parseNycAddress input = Inr r
         \<and> housenumber r =
             optText (joinSp (take (finalCount (tokenize input)) (keptTokens (tokenize input))))
         \<and> street r =
             optText (joinSp (drop (finalCount (tokenize input)) (keptTokens (tokenize input)))))"
  using parseTokens_fields [of "tokenize input"]
  by (simp add: reclassify_eq parseNycAddress_def finalCount_def)

theorem reclassify_with_housenumber_witness:
  "reclassify 1 [''55'', ''D'', ''DR'', ''M''] = 2
   \<and> reclassify 1 [''1307'', ''A'', ''ST'', ''X''] = 1"
  using reclassify_with_housenumber [of 1 "[''55'', ''D'', ''DR'', ''M'']" "[]"]
    reclassify_with_housenumber [of 1 "[''1307'', ''A'', ''ST'', ''X'']" "[]"]
  by (simp add: ambiguousTokens_def)

section \<open>The Marble Hill checks\<close>

lemma west22x_broadway: "\<not> wholeStringMatchesPattern ''BROADWAY'' west22xRegex"
  by code_simp

lemma thirdCheck_broadway:
  "thirdCheck ''BROADWAY'' (Some h) boro =
     (h = 5485 \<or>
      (5170 \<le> h \<and> h \<le> 5480
       \<and> \<not> (5301 \<le> h \<and> h \<le> 5320 \<and> 3 \<le> boro)
       \<and> \<not> (5401 \<le> h \<and> h \<le> 5420)))"
  unfolding thirdCheck_def using west22x_broadway by auto

text \<open>
  Claim C2 says that on BROADWAY the housenumbers 5401 to 5420 are left out only when
  the borough is not already 1 or 2, as the comment in the source says too. The
  comparison of the source for that range is \<open>h >= 5401 && h <= 5321\<close>, which no number
  satisfies, so the range is left out for every borough (lemma \<open>thirdCheck_broadway\<close>).
  Here is the parser at \<open>5410 Broadway Bronx\<close>, where the claim gives Marble Hill, and at
  \<open>5310 Broadway Bronx\<close>, where the sibling range does what the claim says.
\<close>

theorem broadway_5410_bronx:
  "parseNycAddress ''5410 Broadway Bronx'' =
     Inr \<lparr>housenumber = Some ''5410'', street = Some ''BROADWAY'', borough = Some 2,
          postcode = None, marble_hill = None\<rparr>
   \<and> parseNycAddress ''5310 Broadway Bronx'' =
     Inr \<lparr>housenumber = Some ''5310'', street = Some ''BROADWAY'', borough = Some 1,
          postcode = None, marble_hill = Some True\<rparr>"
  by code_simp

lemma marbleHillChecks_stage:
  "\<exists>b mh. marbleHillChecks (r_postcode (resolved ts)) (fallbackBoro (resolved ts)) (finalCount ts)
             (keptTokens ts) s = Inr (b, mh)"
proof -
  have "keptTokens ts \<noteq> [] \<or> finalCount ts = 0"
  proof (cases "countHousenumberTokens ts = 0")
    case True
    then show ?thesis by (simp add: finalCount_def reclassify_def)
  next
    case False
    then have "ts \<noteq> []" using countHousenumberTokens_pos by blast
    then show ?thesis using keptTokens_nonempty by blast
  qed
  from marbleHillChecks_total [OF this] show ?thesis by force
qed

lemma parseTokens_marbleHillChecks:
  "\<exists>b mh. marbleHillChecks (r_postcode (resolved ts)) (fallbackBoro (resolved ts)) (finalCount ts)
             (keptTokens ts) (streetTextOf ts) = Inr (b, mh)
     \<and> parseTokens ts =
         Inr \<lparr>housenumber = optText (joinSp (take (finalCount ts) (keptTokens ts))),
              street = optText (streetTextOf ts),
              borough = (if b < 6 then Some b else None),
              postcode = optText (r_postcode (resolved ts)),
              marble_hill = (if mh then Some True else None)\<rparr>"
proof -
  obtain b mh where m: "marbleHillChecks (r_postcode (resolved ts)) (fallbackBoro (resolved ts))
      (finalCount ts) (keptTokens ts) (streetTextOf ts) = Inr (b, mh)"
    using marbleHillChecks_stage by blast
  have "parseTokens ts =
         Inr \<lparr>housenumber = optText (joinSp (take (finalCount ts) (keptTokens ts))),
              street = optText (streetTextOf ts),
              borough = (if b < 6 then Some b else None),
              postcode = optText (r_postcode (resolved ts)),
              marble_hill = (if mh then Some True else None)\<rparr>"
    using m by (simp add: parseTokens_stages streetTextOf_def)
  with m show ?thesis by blast
qed

lemma marbleHillChecks_mhh:
  assumes "pc = [] \<or> stripPrefix ''10463'' pc \<noteq> None" and "boro \<notin> set [3, 4, 5]"
    and "mhhMatches streetText = Some grp"
  shows "marbleHillChecks pc boro n toks streetText =
           (if grp \<in> set [Some ''4'', Some ''5'', Some ''6'', Some ''11''] then Inr (2, False)
            else Inr (1, True))"
  using assms unfolding marbleHillChecks_def by simp

text \<open>
  Claim C5: for every input where the Marble Hill checks run (\<open>overrideApplies\<close>) and the
  street text contains MARBLE HILL HOUSES in one of the spellings of the pattern
  (\<open>mhhMatches\<close> is not \<open>None\<close>): when the building number read by the pattern is 4, 5, 6
  or 11 the output has borough 2 and no \<open>marble_hill\<close>; otherwise \<open>marble_hill\<close> is true
  and the borough is 1. And \<open>marble hill houses bldg 11\<close> gives the street
  MARBLE HILL HOUSES BLDG 11, the borough 2 and no \<open>marble_hill\<close>.
\<close>

theorem marble_hill_houses:
  "(overrideApplies (tokenize input) \<and> mhhMatches (streetTextOf (tokenize input)) = Some grp \<longrightarrow>
      (\<exists>r. parseNycAddress input = Inr r
         \<and> (if grp \<in> set [Some ''4'', Some ''5'', Some ''6'', Some ''11'']
            then borough r = Some 2 \<and> marble_hill r = None
            else borough r = Some 1 \<and> marble_hill r = Some True)))
   \<and> parseNycAddress ''marble hill houses bldg 11'' =
        Inr \<lparr>housenumber = None, street = Some ''MARBLE HILL HOUSES BLDG 11'', borough = Some 2,
             postcode = None, marble_hill = None\<rparr>"
proof
  show "overrideApplies (tokenize input) \<and> mhhMatches (streetTextOf (tokenize input)) = Some grp \<longrightarrow>
      (\<exists>r. parseNycAddress input = Inr r
         \<and> (if grp \<in> set [Some ''4'', Some ''5'', Some ''6'', Some ''11'']
            then borough r = Some 2 \<and> marble_hill r = None
            else borough r = Some 1 \<and> marble_hill r = Some True))"
  proof
    assume a: "overrideApplies (tokenize input) \<and> mhhMatches (streetTextOf (tokenize input)) = Some grp"
    let ?ts = "tokenize input"
    obtain b mh where m: "marbleHillChecks (r_postcode (resolved ?ts)) (fallbackBoro (resolved ?ts))
        (finalCount ?ts) (keptTokens ?ts) (streetTextOf ?ts) = Inr (b, mh)"
      and p: "parseTokens ?ts =
         Inr \<lparr>housenumber = optText (joinSp (take (finalCount ?ts) (keptTokens ?ts))),
              street = optText (streetTextOf ?ts),
              borough = (if b < 6 then Some b else None),
              postcode = optText (r_postcode (resolved ?ts)),
              marble_hill = (if mh then Some True else None)\<rparr>"
      using parseTokens_marbleHillChecks by blast
    from a have "marbleHillChecks (r_postcode (resolved ?ts)) (fallbackBoro (resolved ?ts))
        (finalCount ?ts) (keptTokens ?ts) (streetTextOf ?ts) =
           (if grp \<in> set [Some ''4'', Some ''5'', Some ''6'', Some ''11''] then Inr (2, False)
            else Inr (1, True))"
      by (intro marbleHillChecks_mhh) (simp_all add: overrideApplies_def)
    with m have "(b, mh) = (if grp \<in> set [Some ''4'', Some ''5'', Some ''6'', Some ''11'']
        then (2, False) else (1, True))"
      by (simp split: if_splits)
    then show "\<exists>r. parseNycAddress input = Inr r
         \<and> (if grp \<in> set [Some ''4'', Some ''5'', Some ''6'', Some ''11'']
            then borough r = Some 2 \<and> marble_hill r = None
            else borough r = Some 1 \<and> marble_hill r = Some True)"
      unfolding parseNycAddress_def p by (simp split: if_splits)
  qed
  show "parseNycAddress ''marble hill houses bldg 11'' =
        Inr \<lparr>housenumber = None, street = Some ''MARBLE HILL HOUSES BLDG 11'', borough = Some 2,
             postcode = None, marble_hill = None\<rparr>"
    by code_simp
qed

theorem marble_hill_houses_witness:
  "overrideApplies (tokenize ''marble hill houses bldg 1'')
   \<and> mhhMatches (streetTextOf (tokenize ''marble hill houses bldg 1'')) = Some (Some ''1'')
   \<and> parseNycAddress ''marble hill houses bldg 1'' =
        Inr \<lparr>housenumber = None, street = Some ''MARBLE HILL HOUSES BLDG 1'', borough = Some 1,
             postcode = None, marble_hill = Some True\<rparr>"
proof -
  have t: "tokenize ''marble hill houses bldg 1'' = [''MARBLE HILL'', ''HOUSES'', ''BLDG'', ''1'']"
    by code_simp
  have o: "overrideApplies [''MARBLE HILL'', ''HOUSES'', ''BLDG'', ''1'']" by code_simp
  have g: "mhhMatches (streetTextOf [''MARBLE HILL'', ''HOUSES'', ''BLDG'', ''1'']) = Some (Some ''1'')"
    by code_simp
  have e: "parseTokens [''MARBLE HILL'', ''HOUSES'', ''BLDG'', ''1''] =
        Inr \<lparr>housenumber = None, street = Some ''MARBLE HILL HOUSES BLDG 1'', borough = Some 1,
             postcode = None, marble_hill = Some True\<rparr>"
    by code_simp
  from marble_hill_houses [of "''marble hill houses bldg 1''" "Some ''1''"] o g e
  show ?thesis unfolding t parseNycAddress_def by simp
qed


section \<open>The postcode and the borough chosen after the loop\<close>

lemma zipMatches_Some: "zipMatches t = Some p \<Longrightarrow> p = take 3 t \<and> t \<noteq> []"
  by (cases t rule: zipMatches.cases) (auto split: if_splits)

lemma zipMatches_beginsWithFiveDigits: "(zipMatches t \<noteq> None) = beginsWithFiveDigits t"
  by (cases t rule: zipMatches.cases) (auto simp: beginsWithFiveDigits_def)

lemma zipBoroOf_ne9: "zipBoroOf p \<noteq> 9"
  using zipBoroOf_range [of p] by simp

lemma resolveLoop_postcode:
  fixes ts :: "string list" and n :: nat
  defines "Z \<equiv> \<lambda>s popped. r_zipBoro s = zipBoroOf (take 3 (r_postcode s))
              \<and> zipMatches (r_postcode s) \<noteq> None
              \<and> (\<exists>mid post. popped = mid @ r_postcode s # post
                     \<and> (\<forall>t\<in>set post. zipMatches t = None)
                     \<and> n < length (r_tokens s @ mid))"
  defines "J \<equiv> \<lambda>s. \<exists>popped. ts = r_tokens s @ popped \<and>
      (if r_postcode s = [] then r_zipBoro s = 9 \<and> (\<forall>t\<in>set popped. zipMatches t = None)
       else Z s popped)"
  shows "J (resolveLoop n (initialState ts))"
proof (rule resolveLoop_rule [where P = J])
  show "J (initialState ts)"
    by (simp add: J_def initialState_def)
next
  fix s
  assume j: "J s" and long: "1 < int (length (r_tokens s)) - int n"
    and z9: "r_zipBoro s = 9" and zm: "zipMatches (last (r_tokens s)) \<noteq> None"
  let ?s' = "s\<lparr>r_postcode := last (r_tokens s),
                r_zipBoro := zipBoroOf (the (zipMatches (last (r_tokens s)))),
                r_tokens := butlast (r_tokens s)\<rparr>"
  from long have ne: "r_tokens s \<noteq> []" by auto
  from j obtain popped where p: "ts = r_tokens s @ popped"
    and c: "if r_postcode s = [] then r_zipBoro s = 9 \<and> (\<forall>t\<in>set popped. zipMatches t = None)
            else Z s popped"
    unfolding J_def by blast
  have pc: "r_postcode s = []"
  proof (rule ccontr)
    assume "r_postcode s \<noteq> []"
    with c have "r_zipBoro s = zipBoroOf (take 3 (r_postcode s))" by (simp add: Z_def)
    with z9 zipBoroOf_ne9 show False by metis
  qed
  with c have np: "\<forall>t\<in>set popped. zipMatches t = None" by simp
  from zm obtain q where q: "zipMatches (last (r_tokens s)) = Some q" by auto
  from zipMatches_Some [OF q] have q3: "q = take 3 (last (r_tokens s))"
    and lne: "last (r_tokens s) \<noteq> []" by auto
  have a: "ts = butlast (r_tokens s) @ (last (r_tokens s) # popped)"
    using p append_butlast_last_id [OF ne] by (metis append.assoc append_Cons append_Nil)
  have "\<exists>mid post. last (r_tokens s) # popped = mid @ last (r_tokens s) # post
          \<and> (\<forall>t\<in>set post. zipMatches t = None)
          \<and> n < length (butlast (r_tokens s) @ mid)"
  proof (intro exI conjI)
    show "last (r_tokens s) # popped = [] @ last (r_tokens s) # popped" by simp
    show "\<forall>t\<in>set popped. zipMatches t = None" by (rule np)
    show "n < length (butlast (r_tokens s) @ [])" using long by simp
  qed
  then have "Z ?s' (last (r_tokens s) # popped)"
    unfolding Z_def using q q3 by simp
  then have "ts = r_tokens ?s' @ (last (r_tokens s) # popped) \<and>
      (if r_postcode ?s' = [] then r_zipBoro ?s' = 9
          \<and> (\<forall>t\<in>set (last (r_tokens s) # popped). zipMatches t = None)
       else Z ?s' (last (r_tokens s) # popped))"
    using a lne by simp
  then show "J ?s'" unfolding J_def by (rule exI)
next
  fix s
  assume j: "J s" and long: "1 < int (length (r_tokens s)) - int n"
    and nz: "\<not> (r_zipBoro s = 9 \<and> zipMatches (last (r_tokens s)) \<noteq> None)"
  let ?s' = "s\<lparr>r_boro := tokenBoro (last (r_tokens s)),
                r_foundNy := (r_foundNy s \<or> tokenBoro (last (r_tokens s)) = 6),
                r_tokens := butlast (r_tokens s)\<rparr>"
  from long have ne: "r_tokens s \<noteq> []" by auto
  from j obtain popped where p: "ts = r_tokens s @ popped"
    and c: "if r_postcode s = [] then r_zipBoro s = 9 \<and> (\<forall>t\<in>set popped. zipMatches t = None)
            else Z s popped"
    unfolding J_def by blast
  have a: "ts = butlast (r_tokens s) @ (last (r_tokens s) # popped)"
    using p append_butlast_last_id [OF ne] by (metis append.assoc append_Cons append_Nil)
  have "if r_postcode ?s' = [] then r_zipBoro ?s' = 9
          \<and> (\<forall>t\<in>set (last (r_tokens s) # popped). zipMatches t = None)
        else Z ?s' (last (r_tokens s) # popped)"
  proof (cases "r_postcode s = []")
    case True
    with c have "r_zipBoro s = 9" and "\<forall>t\<in>set popped. zipMatches t = None" by simp_all
    moreover from this nz have "zipMatches (last (r_tokens s)) = None" by simp
    ultimately show ?thesis using True by simp
  next
    case False
    with c have z: "Z s popped" by simp
    then obtain mid post where m: "popped = mid @ r_postcode s # post"
      and np: "\<forall>t\<in>set post. zipMatches t = None" and l: "n < length (r_tokens s @ mid)"
      unfolding Z_def by blast
    have "\<exists>mid' post'. last (r_tokens s) # popped = mid' @ r_postcode s # post'
          \<and> (\<forall>t\<in>set post'. zipMatches t = None)
          \<and> n < length (butlast (r_tokens s) @ mid')"
    proof (intro exI conjI)
      show "last (r_tokens s) # popped = (last (r_tokens s) # mid) @ r_postcode s # post"
        using m by simp
      show "\<forall>t\<in>set post. zipMatches t = None" by (rule np)
      show "n < length (butlast (r_tokens s) @ (last (r_tokens s) # mid))"
        using l ne by simp
    qed
    then have "Z ?s' (last (r_tokens s) # popped)"
      using z unfolding Z_def by simp
    then show ?thesis using False by simp
  qed
  with a have "ts = r_tokens ?s' @ (last (r_tokens s) # popped) \<and>
      (if r_postcode ?s' = [] then r_zipBoro ?s' = 9
          \<and> (\<forall>t\<in>set (last (r_tokens s) # popped). zipMatches t = None)
       else Z ?s' (last (r_tokens s) # popped))"
    by simp
  then show "J ?s'" unfolding J_def by (rule exI)
next
  fix s
  assume "J s"
  then obtain popped where "ts = r_tokens s @ popped \<and>
      (if r_postcode s = [] then r_zipBoro s = 9 \<and> (\<forall>t\<in>set popped. zipMatches t = None)
       else Z s popped)"
    unfolding J_def by blast
  moreover have "Z (s\<lparr>r_boro := 9\<rparr>) popped = Z s popped"
    unfolding Z_def by simp
  ultimately have "ts = r_tokens (s\<lparr>r_boro := 9\<rparr>) @ popped \<and>
      (if r_postcode (s\<lparr>r_boro := 9\<rparr>) = []
       then r_zipBoro (s\<lparr>r_boro := 9\<rparr>) = 9 \<and> (\<forall>t\<in>set popped. zipMatches t = None)
       else Z (s\<lparr>r_boro := 9\<rparr>) popped)"
    by simp
  then show "J (s\<lparr>r_boro := 9\<rparr>)" unfolding J_def by (rule exI)
qed

lemma resolveLoop_postcode_facts:
  fixes ts :: "string list" and n :: nat
  defines "s \<equiv> resolveLoop n (initialState ts)"
  shows "r_postcode s = [] \<Longrightarrow> r_zipBoro s = 9"
    and "r_postcode s \<noteq> [] \<Longrightarrow> r_zipBoro s = zipBoroOf (take 3 (r_postcode s))"
    and "r_postcode s \<noteq> [] \<Longrightarrow>
           \<exists>pre post. ts = pre @ r_postcode s # post \<and> zipMatches (r_postcode s) \<noteq> None
             \<and> (\<forall>t\<in>set post. zipMatches t = None) \<and> n < length pre"
proof -
  from resolveLoop_postcode [of ts n]
  obtain popped where p: "ts = r_tokens s @ popped"
    and c: "if r_postcode s = [] then r_zipBoro s = 9 \<and> (\<forall>t\<in>set popped. zipMatches t = None)
       else r_zipBoro s = zipBoroOf (take 3 (r_postcode s))
              \<and> zipMatches (r_postcode s) \<noteq> None
              \<and> (\<exists>mid post. popped = mid @ r_postcode s # post
                     \<and> (\<forall>t\<in>set post. zipMatches t = None)
                     \<and> n < length (r_tokens s @ mid))"
    unfolding s_def by blast
  show "r_postcode s = [] \<Longrightarrow> r_zipBoro s = 9" using c by simp
  show "r_postcode s \<noteq> [] \<Longrightarrow> r_zipBoro s = zipBoroOf (take 3 (r_postcode s))" using c by simp
  show "\<exists>pre post. ts = pre @ r_postcode s # post \<and> zipMatches (r_postcode s) \<noteq> None
             \<and> (\<forall>t\<in>set post. zipMatches t = None) \<and> n < length pre"
    if ne: "r_postcode s \<noteq> []"
  proof -
    from c ne obtain mid post where m: "popped = mid @ r_postcode s # post"
      and z: "zipMatches (r_postcode s) \<noteq> None"
      and np: "\<forall>t\<in>set post. zipMatches t = None" and l: "n < length (r_tokens s @ mid)"
      by auto
    show ?thesis
    proof (intro exI conjI)
      show "ts = (r_tokens s @ mid) @ r_postcode s # post" using p m by simp
    qed (use z np l in auto)
  qed
qed

lemma resolved_postcode:
  assumes "r_postcode (resolved ts) \<noteq> []"
  shows "\<exists>pre post. ts = pre @ r_postcode (resolved ts) # post
           \<and> beginsWithFiveDigits (r_postcode (resolved ts))
           \<and> (\<forall>t\<in>set post. \<not> beginsWithFiveDigits t)
           \<and> countHousenumberTokens ts < length pre"
  using resolveLoop_postcode_facts(3) [of "countHousenumberTokens ts" ts] assms
  unfolding resolved_def zipMatches_beginsWithFiveDigits [symmetric] by simp

lemma resolved_zipBoro:
  "r_zipBoro (resolved ts) =
     (if r_postcode (resolved ts) = [] then 9 else zipBoroOf (take 3 (r_postcode (resolved ts))))"
  using resolveLoop_postcode_facts(1,2) [of "countHousenumberTokens ts" ts]
  unfolding resolved_def by simp

lemma zipPrefixBoros_empty: "map_of zipPrefixBoros [] = None"
  by (simp add: zipPrefixBoros_def)

lemma fallbackBoro_resolved:
  assumes "5 < r_boro (resolved ts)"
  shows "fallbackBoro (resolved ts) =
     (case map_of zipPrefixBoros (take 3 (r_postcode (resolved ts))) of
        Some b \<Rightarrow> b
      | None \<Rightarrow> if r_foundNy (resolved ts) then 1 else r_boro (resolved ts))"
proof (cases "map_of zipPrefixBoros (take 3 (r_postcode (resolved ts)))")
  case None
  then have "r_zipBoro (resolved ts) = 9 \<or> r_zipBoro (resolved ts) = 7"
    by (simp add: resolved_zipBoro zipBoroOf_def)
  then show ?thesis using assms None by (auto simp: fallbackBoro_def)
next
  case (Some b)
  then have "r_postcode (resolved ts) \<noteq> []" using zipPrefixBoros_empty by auto
  then have "r_zipBoro (resolved ts) = b"
    using Some by (simp add: resolved_zipBoro zipBoroOf_def)
  moreover have "b \<le> 5" using zipPrefixBoros_range [OF Some] by simp
  ultimately show ?thesis using assms Some by (simp add: fallbackBoro_def)
qed

lemma resolveLoop_removed:
  fixes ts :: "string list" and n :: nat
  defines "K \<equiv> \<lambda>s. (\<exists>removed. ts = r_tokens s @ removed
              \<and> (\<forall>t\<in>set removed. zipMatches t \<noteq> None \<or> tokenBoro t \<noteq> 9))
            \<and> (r_boro s = 9 \<or> (\<exists>t\<in>set ts. r_boro s = tokenBoro t))"
  shows "K (resolveLoop n (initialState ts))"
proof (rule resolveLoop_rule [where P = K])
  show "K (initialState ts)"
    by (simp add: K_def initialState_def)
next
  fix s
  assume k: "K s" and long: "1 < int (length (r_tokens s)) - int n"
    and zm: "zipMatches (last (r_tokens s)) \<noteq> None"
  from long have ne: "r_tokens s \<noteq> []" by auto
  from k obtain removed where p: "ts = r_tokens s @ removed"
    and e: "\<forall>t\<in>set removed. zipMatches t \<noteq> None \<or> tokenBoro t \<noteq> 9"
    and b: "r_boro s = 9 \<or> (\<exists>t\<in>set ts. r_boro s = tokenBoro t)"
    unfolding K_def by blast
  have a: "ts = butlast (r_tokens s) @ (last (r_tokens s) # removed)"
    using p append_butlast_last_id [OF ne] by (metis append.assoc append_Cons append_Nil)
  have "\<forall>t\<in>set (last (r_tokens s) # removed). zipMatches t \<noteq> None \<or> tokenBoro t \<noteq> 9"
    using e zm by simp
  with a b show "K (s\<lparr>r_postcode := last (r_tokens s),
                r_zipBoro := zipBoroOf (the (zipMatches (last (r_tokens s)))),
                r_tokens := butlast (r_tokens s)\<rparr>)"
    unfolding K_def by (intro conjI exI [of _ "last (r_tokens s) # removed"]) simp_all
next
  fix s
  assume k: "K s" and long: "1 < int (length (r_tokens s)) - int n"
    and tb: "tokenBoro (last (r_tokens s)) \<noteq> 9"
  from long have ne: "r_tokens s \<noteq> []" by auto
  from k obtain removed where p: "ts = r_tokens s @ removed"
    and e: "\<forall>t\<in>set removed. zipMatches t \<noteq> None \<or> tokenBoro t \<noteq> 9"
    unfolding K_def by blast
  have a: "ts = butlast (r_tokens s) @ (last (r_tokens s) # removed)"
    using p append_butlast_last_id [OF ne] by (metis append.assoc append_Cons append_Nil)
  have m: "last (r_tokens s) \<in> set ts" using p ne by simp
  have "\<forall>t\<in>set (last (r_tokens s) # removed). zipMatches t \<noteq> None \<or> tokenBoro t \<noteq> 9"
    using e tb by simp
  with a m show "K (s\<lparr>r_boro := tokenBoro (last (r_tokens s)),
                r_foundNy := (r_foundNy s \<or> tokenBoro (last (r_tokens s)) = 6),
                r_tokens := butlast (r_tokens s)\<rparr>)"
    unfolding K_def by (intro conjI exI [of _ "last (r_tokens s) # removed"]) auto
next
  fix s
  assume "K s"
  then show "K (s\<lparr>r_boro := 9\<rparr>)" unfolding K_def by simp
qed

lemma resolved_removed:
  "\<exists>removed. ts = keptTokens ts @ removed
     \<and> (\<forall>t\<in>set removed. beginsWithFiveDigits t \<or> tokenBoro t \<noteq> 9)"
  using resolveLoop_removed [of ts "countHousenumberTokens ts"]
  unfolding keptTokens_def resolved_def zipMatches_beginsWithFiveDigits by blast

lemma resolved_boro_token:
  "r_boro (resolved ts) = 9 \<or> (\<exists>t\<in>set ts. r_boro (resolved ts) = tokenBoro t)"
  using resolveLoop_removed [of ts "countHousenumberTokens ts"]
  unfolding resolved_def by blast

lemma marbleHillChecks_result:
  assumes "marbleHillChecks pc b n toks s = Inr (b', mh)"
  shows "b' = (if mh then 1
               else if (pc = [] \<or> stripPrefix ''10463'' pc \<noteq> None) \<and> b \<notin> set [3, 4, 5]
                       \<and> mhhMatches s \<in> Some ` set [Some ''4'', Some ''5'', Some ''6'', Some ''11'']
                    then 2 else b)"
  using assms unfolding marbleHillChecks_def
  by (auto split: if_splits option.splits list.splits)

text \<open>
  Claim C7 as stated fails: its second half gives the borough of the output, and the
  Marble Hill checks come after the choice it describes. For \<open>5200 broadway 10463\<close> no
  borough token is found, the postcode prefix 104 is mapped to 2, and the output borough
  is 1; for \<open>jacobus pl\<close> there is neither postcode nor NY and the borough is present.
\<close>

theorem borough_overridden_counterexample:
  "5 < r_boro (resolved (tokenize ''5200 broadway 10463''))
   \<and> map_of zipPrefixBoros (take 3 ''10463'') = Some 2
   \<and> parseNycAddress ''5200 broadway 10463'' =
        Inr \<lparr>housenumber = Some ''5200'', street = Some ''BROADWAY'', borough = Some 1,
             postcode = Some ''10463'', marble_hill = Some True\<rparr>
   \<and> parseNycAddress ''jacobus pl'' =
        Inr \<lparr>housenumber = None, street = Some ''JACOBUS PL'', borough = Some 1,
             postcode = None, marble_hill = Some True\<rparr>"
  by code_simp

text \<open>
  Claim C7, amended. The postcode of the output, when present, is a whole token of the
  input that begins with five digits, no token after it begins with five digits, and
  more tokens than the housenumber count come before it. When the loop found no
  borough token of code 1 to 5 (\<open>r_boro\<close> is above 5 after the loop, as it is when no
  token of the input has such a code), the borough of the output is 1 when
  \<open>marble_hill\<close> is set; it is 2 when the Marble Hill checks run (the postcode is absent
  or begins with 10463, and the borough chosen after the loop is not 3, 4 or 5) and the
  street has MARBLE HILL HOUSES with the building 4, 5, 6 or 11; and otherwise it is the
  value the table gives for the first three characters of the postcode when it has one,
  else 1 when a generic NY token was seen, else absent.
\<close>

theorem postcode_and_fallback:
  "\<exists>r. parseNycAddress input = Inr r
     \<and> (case postcode r of
          None \<Rightarrow> True
        | Some z \<Rightarrow>
            \<exists>pre post. tokenize input = pre @ z # post \<and> beginsWithFiveDigits z
              \<and> (\<forall>t\<in>set post. \<not> beginsWithFiveDigits t)
              \<and> countHousenumberTokens (tokenize input) < length pre)
     \<and> ((\<forall>t\<in>set (tokenize input). 5 < tokenBoro t) \<longrightarrow> 5 < r_boro (resolved (tokenize input)))
     \<and> (5 < r_boro (resolved (tokenize input)) \<longrightarrow>
        borough r =
          (if marble_hill r = Some True then Some 1
           else if overrideApplies (tokenize input)
                   \<and> mhhMatches (streetTextOf (tokenize input))
                        \<in> Some ` set [Some ''4'', Some ''5'', Some ''6'', Some ''11'']
                then Some 2
           else (case map_of zipPrefixBoros
                        (take 3 (case postcode r of None \<Rightarrow> [] | Some z \<Rightarrow> z)) of
                   Some b \<Rightarrow> Some b
                 | None \<Rightarrow> if r_foundNy (resolved (tokenize input)) then Some 1 else None)))"
proof -
  let ?ts = "tokenize input"
  let ?st = "resolved ?ts"
  obtain b mh where m: "marbleHillChecks (r_postcode ?st) (fallbackBoro ?st)
        (finalCount ?ts) (keptTokens ?ts) (streetTextOf ?ts) = Inr (b, mh)"
    and p: "parseTokens ?ts =
         Inr \<lparr>housenumber = optText (joinSp (take (finalCount ?ts) (keptTokens ?ts))),
              street = optText (streetTextOf ?ts),
              borough = (if b < 6 then Some b else None),
              postcode = optText (r_postcode ?st),
              marble_hill = (if mh then Some True else None)\<rparr>"
    using parseTokens_marbleHillChecks by blast
  define r where "r = \<lparr>housenumber = optText (joinSp (take (finalCount ?ts) (keptTokens ?ts))),
              street = optText (streetTextOf ?ts),
              borough = (if b < 6 then Some b else None),
              postcode = optText (r_postcode ?st),
              marble_hill = (if mh then Some True else None)\<rparr>"
  have pr: "parseNycAddress input = Inr r"
    by (simp add: parseNycAddress_def p r_def)
  have pc: "postcode r = optText (r_postcode ?st)"
    and mhr: "(marble_hill r = Some True) = mh"
    and br: "borough r = (if b < 6 then Some b else None)"
    by (simp_all add: r_def)
  have pc': "(case postcode r of None \<Rightarrow> [] | Some z \<Rightarrow> z) = r_postcode ?st"
    by (simp add: pc optText_def)
  have one: "case postcode r of
          None \<Rightarrow> True
        | Some z \<Rightarrow>
            \<exists>pre post. tokenize input = pre @ z # post \<and> beginsWithFiveDigits z
              \<and> (\<forall>t\<in>set post. \<not> beginsWithFiveDigits t)
              \<and> countHousenumberTokens (tokenize input) < length pre"
  proof (cases "r_postcode ?st = []")
    case True
    then show ?thesis by (simp add: pc optText_def)
  next
    case False
    from resolved_postcode [OF False] False show ?thesis by (simp add: pc optText_def)
  qed
  have two: "(\<forall>t\<in>set ?ts. 5 < tokenBoro t) \<longrightarrow> 5 < r_boro ?st"
    using resolved_boro_token [of ?ts] by auto
  have three: "borough r =
          (if marble_hill r = Some True then Some 1
           else if overrideApplies ?ts
                   \<and> mhhMatches (streetTextOf ?ts)
                        \<in> Some ` set [Some ''4'', Some ''5'', Some ''6'', Some ''11'']
                then Some 2
           else (case map_of zipPrefixBoros
                        (take 3 (case postcode r of None \<Rightarrow> [] | Some z \<Rightarrow> z)) of
                   Some b \<Rightarrow> Some b
                 | None \<Rightarrow> if r_foundNy ?st then Some 1 else None))"
    if h: "5 < r_boro ?st"
  proof -
    have f: "fallbackBoro ?st = (case map_of zipPrefixBoros (take 3 (r_postcode ?st)) of
        Some b \<Rightarrow> b
      | None \<Rightarrow> if r_foundNy ?st then 1 else r_boro ?st)"
      using h by (rule fallbackBoro_resolved)
    have v: "(if fallbackBoro ?st < 6 then Some (fallbackBoro ?st) else None) =
       (case map_of zipPrefixBoros (take 3 (r_postcode ?st)) of
                   Some b \<Rightarrow> Some b
                 | None \<Rightarrow> if r_foundNy ?st then Some 1 else None)"
    proof (cases "map_of zipPrefixBoros (take 3 (r_postcode ?st))")
      case None
      then show ?thesis using f h by simp
    next
      case (Some x)
      then have "x \<le> 5" using zipPrefixBoros_range by blast
      then show ?thesis using f Some by simp
    qed
    define hs where "hs = (overrideApplies ?ts
                   \<and> mhhMatches (streetTextOf ?ts)
                        \<in> Some ` set [Some ''4'', Some ''5'', Some ''6'', Some ''11''])"
    from marbleHillChecks_result [OF m]
    have "b = (if mh then 1 else if hs then 2 else fallbackBoro ?st)"
      unfolding overrideApplies_def hs_def by simp
    then have "(if b < 6 then Some b else None) =
       (if mh then Some 1 else if hs then Some 2
        else (if fallbackBoro ?st < 6 then Some (fallbackBoro ?st) else None))"
      by simp
    then show ?thesis
      unfolding br mhr pc' v hs_def .
  qed
  from pr one two three show ?thesis by blast
qed

theorem postcode_and_fallback_witness:
  "5 < r_boro (resolved (tokenize ''1 x ny 10309''))
   \<and> r_foundNy (resolved (tokenize ''1 x ny 10309''))
   \<and> \<not> overrideApplies (tokenize ''1 x ny 10309'')
   \<and> map_of zipPrefixBoros (take 3 ''10309'') = Some 5
   \<and> parseNycAddress ''1 x ny 10309'' =
        Inr \<lparr>housenumber = Some ''1'', street = Some ''X'', borough = Some 5,
             postcode = Some ''10309'', marble_hill = None\<rparr>
   \<and> 5 < r_boro (resolved (tokenize ''marble hill houses 11201''))
   \<and> \<not> overrideApplies (tokenize ''marble hill houses 11201'')
   \<and> map_of zipPrefixBoros (take 3 ''11201'') = Some 3
   \<and> parseNycAddress ''marble hill houses 11201'' =
        Inr \<lparr>housenumber = None, street = Some ''MARBLE HILL HOUSES'', borough = Some 3,
             postcode = Some ''11201'', marble_hill = None\<rparr>"
proof -
  have t: "tokenize ''1 x ny 10309'' = [''1'', ''X'', ''NY'', ''10309'']" by code_simp
  have a: "5 < r_boro (resolved [''1'', ''X'', ''NY'', ''10309''])" by code_simp
  have b: "\<not> overrideApplies [''1'', ''X'', ''NY'', ''10309'']" by code_simp
  have c: "r_foundNy (resolved [''1'', ''X'', ''NY'', ''10309''])" by code_simp
  have d: "map_of zipPrefixBoros (take 3 ''10309'') = Some 5" by code_simp
  have e: "parseTokens [''1'', ''X'', ''NY'', ''10309''] =
        Inr \<lparr>housenumber = Some ''1'', street = Some ''X'', borough = Some 5,
             postcode = Some ''10309'', marble_hill = None\<rparr>" by code_simp
  have t': "tokenize ''marble hill houses 11201'' = [''MARBLE HILL'', ''HOUSES'', ''11201'']"
    by code_simp
  have a': "5 < r_boro (resolved [''MARBLE HILL'', ''HOUSES'', ''11201''])" by code_simp
  have b': "\<not> overrideApplies [''MARBLE HILL'', ''HOUSES'', ''11201'']" by code_simp
  have d': "map_of zipPrefixBoros (take 3 ''11201'') = Some 3" by code_simp
  have e': "parseTokens [''MARBLE HILL'', ''HOUSES'', ''11201''] =
        Inr \<lparr>housenumber = None, street = Some ''MARBLE HILL HOUSES'', borough = Some 3,
             postcode = Some ''11201'', marble_hill = None\<rparr>" by code_simp
  from postcode_and_fallback [of "''1 x ny 10309''"]
    postcode_and_fallback [of "''marble hill houses 11201''"] a b c d e a' b' d' e'
  show ?thesis unfolding t t' parseNycAddress_def by simp
qed


section \<open>The housenumber count of the tokens that are left\<close>

lemma tokenAt_take: "i < k \<Longrightarrow> tokenAt (take k ts) i = tokenAt ts i"
  by (simp add: tokenAt_def)

lemma not_absorbed_last: "\<not> absorbed (a, b) \<Longrightarrow> \<not> absorbed (a, [])"
  by (auto simp: absorbed_def housenumberTokens_def ambiguousTokens_def)

lemma countLoop_continue:
  "n < length xs \<Longrightarrow> absorbed (xs ! n, tokenAt xs (Suc n)) \<Longrightarrow>
   countLoop xs n = countLoop xs (Suc n)"
  by (subst countLoop_step) simp

lemma countLoop_stop:
  "\<not> (n < length xs \<and> absorbed (xs ! n, tokenAt xs (Suc n))) \<Longrightarrow> countLoop xs n = n"
  by (subst countLoop_step) auto

lemma countLoop_take:
  "countLoop ts n < k \<Longrightarrow> n \<le> length ts \<Longrightarrow> countLoop (take k ts) n = countLoop ts n"
proof (induction ts n rule: countLoop.induct)
  case (1 ts n)
  show ?case
  proof (cases "n < length ts \<and> absorbed (ts ! n, tokenAt ts (Suc n))")
    case True
    then have cond: "ts ! n \<in> set housenumberTokens \<or>
          ts ! n \<in> set ambiguousTokens \<and>
          tokenAt ts (n + 1) \<in> set (housenumberTokens @ ambiguousTokens)"
      by (simp add: absorbed_def)
    have eq: "countLoop ts n = countLoop ts (Suc n)"
      using True by (subst countLoop_step) simp
    with "1.prems" have lt: "countLoop ts (Suc n) < k" by simp
    have "Suc n \<le> countLoop ts (Suc n)"
      using countLoop_bounds [of "Suc n" ts] True by simp
    with lt have nk: "Suc n < k" by simp
    have ih: "countLoop (take k ts) (Suc n) = countLoop ts (Suc n)"
      using "1.IH" [OF _ cond] lt True by simp
    have "n < length (take k ts)" and "absorbed (take k ts ! n, tokenAt (take k ts) (Suc n))"
      using True nk by (simp_all add: tokenAt_take)
    then have "countLoop (take k ts) n = countLoop (take k ts) (Suc n)"
      by (rule countLoop_continue)
    with ih eq show ?thesis by simp
  next
    case False
    then have eq: "countLoop ts n = n" by (subst countLoop_step) auto
    with "1.prems" have nk: "n < k" by simp
    show ?thesis
    proof (cases "n < length ts")
      case True
      with False have na: "\<not> absorbed (ts ! n, tokenAt ts (Suc n))" by simp
      have "tokenAt (take k ts) (Suc n) = tokenAt ts (Suc n) \<or> tokenAt (take k ts) (Suc n) = []"
        by (auto simp: tokenAt_def)
      with na not_absorbed_last [OF na]
      have "\<not> absorbed (take k ts ! n, tokenAt (take k ts) (Suc n))"
        using nk by auto
      then have "countLoop (take k ts) n = n" by (intro countLoop_stop) simp
      with eq show ?thesis by simp
    next
      case False
      with "1.prems" nk have "take k ts = ts" by simp
      then show ?thesis by simp
    qed
  qed
qed

lemma countHousenumberTokens_take:
  assumes "countHousenumberTokens ts < k"
  shows "countHousenumberTokens (take k ts) = countHousenumberTokens ts"
proof (cases "beginsWithDigit (tokenAt ts 0)")
  case True
  then have "ts \<noteq> []" by (auto simp: tokenAt_def)
  then have "1 \<le> length ts" by (cases ts) auto
  moreover from True assms have "countLoop ts 1 < k" by (simp add: countHousenumberTokens_def)
  ultimately have "countLoop (take k ts) 1 = countLoop ts 1" by (rule countLoop_take [rotated])
  moreover have "0 < k" using assms by simp
  ultimately show ?thesis
    using True by (simp add: countHousenumberTokens_def tokenAt_take)
next
  case False
  moreover have "0 < k" using assms by simp
  ultimately show ?thesis
    by (simp add: countHousenumberTokens_def tokenAt_take)
qed

lemma countHousenumberTokens_kept:
  "countHousenumberTokens (keptTokens ts) = countHousenumberTokens ts"
proof (cases "countHousenumberTokens ts < length ts")
  case True
  obtain k where k: "keptTokens ts = take k ts" using keptTokens_prefix by blast
  from keptTokens_exceeds_count [OF True] have "countHousenumberTokens ts < k"
    by (simp add: k)
  then show ?thesis by (simp add: k countHousenumberTokens_take)
next
  case False
  then have "countHousenumberTokens ts = length ts"
    using countHousenumberTokens_le [of ts] by simp
  then show ?thesis by (simp add: keptTokens_all_housenumber)
qed

lemma finalCount_kept:
  assumes "keptTokens us = keptTokens ts"
  shows "finalCount us = finalCount ts"
proof -
  have "countHousenumberTokens us = countHousenumberTokens (keptTokens us)"
    by (simp add: countHousenumberTokens_kept)
  also have "\<dots> = countHousenumberTokens ts"
    by (simp add: assms countHousenumberTokens_kept)
  finally show ?thesis by (simp add: finalCount_def assms)
qed


section \<open>An input of a single token\<close>

text \<open>
  What a match of an expression reads lies within the bounds of the expression; so a
  text cannot be matched by two expressions that a character list separates.
\<close>

lemma tokenizer_minLen: "list_all (\<lambda>r. 1 \<le> minLen r) tokenizerRegex"
  by code_simp

lemma countIn_append: "countIn cs (x @ y) = countIn cs x + countIn cs y"
  by (simp add: countIn_def)

lemma countIn_class0:
  "\<forall>ch\<in>set x. inClass k ch \<Longrightarrow> \<not> list_ex (inClass k) cs \<Longrightarrow> countIn cs x = 0"
  by (auto simp: countIn_def list_ex_iff filter_empty_conv)

lemma stripPrefix_Some: "stripPrefix cs s = Some t \<Longrightarrow> s = cs @ t"
  by (induction cs s rule: stripPrefix.induct) (auto split: if_splits)

lemma classRun_ne: "classRun k w s \<noteq> []"
  by (cases s) auto

lemma classRun_sound:
  "(w', s') \<in> set (classRun k w s) \<Longrightarrow> \<exists>x. s = x @ s' \<and> (\<forall>ch\<in>set x. inClass k ch)"
proof (induction s arbitrary: w)
  case Nil
  then show ?case by simp
next
  case (Cons c s)
  have here: "\<exists>x. c # s = x @ c # s \<and> (\<forall>ch\<in>set x. inClass k ch)"
    by (rule exI [of _ "[]"]) simp
  show ?case
  proof (cases "inClass k c")
    case True
    with Cons.prems
    have "(w', s') \<in> set (classRun k (isWordChar c) s) \<or> (w', s') = (w, c # s)" by auto
    then show ?thesis
    proof
      assume "(w', s') \<in> set (classRun k (isWordChar c) s)"
      from Cons.IH [OF this] obtain x where "s = x @ s'" "\<forall>ch\<in>set x. inClass k ch" by blast
      with True have "c # s = (c # x) @ s' \<and> (\<forall>ch\<in>set (c # x). inClass k ch)" by simp
      then show ?thesis by blast
    next
      assume "(w', s') = (w, c # s)"
      with here show ?thesis by simp
    qed
  next
    case False
    with Cons.prems have "(w', s') = (w, c # s)" by simp
    with here show ?thesis by simp
  qed
qed

lemma withinBounds_class:
  assumes "\<forall>ch\<in>set x. inClass k ch"
  shows "case (if list_ex (inClass k) cs then None else Some 0) of
           None \<Rightarrow> True | Some m \<Rightarrow> countIn cs x \<le> m"
  using countIn_class0 [OF assms] by simp

lemma rmatch_sound:
  "(w', c', s') \<in> set (rmatch r (w, c, s)) \<Longrightarrow> \<exists>x. s = x @ s' \<and> withinBounds cs r x"
proof (induction r arbitrary: w c s w' c' s')
  case (Lit x0)
  then have "stripPrefix x0 s = Some s'"
    by (auto split: option.splits)
  then have "s = x0 @ s'" by (rule stripPrefix_Some)
  moreover have "withinBounds cs (Lit x0) x0" by (simp add: withinBounds_def)
  ultimately show ?case by blast
next
  case (Cls k)
  then obtain ch where s: "s = [ch] @ s'" and k: "inClass k ch"
    by (auto split: list.splits if_splits)
  have "countIn cs [ch] \<le> (if list_ex (inClass k) cs then 1 else 0)"
    using k by (auto simp: countIn_def list_ex_iff)
  then have "withinBounds cs (Cls k) [ch]" by (simp add: withinBounds_def)
  with s show ?case by blast
next
  case (Seq a b)
  then obtain w1 c1 s1 where m: "(w1, c1, s1) \<in> set (rmatch a (w, c, s))"
    and e: "(w', c', s') \<in> set (rmatch b (w1, c1, s1))"
    by auto
  from Seq.IH(1) [OF m] obtain x1 where x1: "s = x1 @ s1" "withinBounds cs a x1" by blast
  from Seq.IH(2) [OF e] obtain x2 where x2: "s1 = x2 @ s'" "withinBounds cs b x2" by blast
  have "withinBounds cs (Seq a b) (x1 @ x2)"
    using x1(2) x2(2) by (auto simp: withinBounds_def countIn_append split: option.splits)
  moreover have "s = (x1 @ x2) @ s'" using x1(1) x2(1) by simp
  ultimately show ?case by blast
next
  case (Opt a)
  from Opt.prems have "(w', c', s') \<in> set (rmatch a (w, c, s)) \<or> (w', c', s') = (w, c, s)"
    by auto
  then show ?case
  proof
    assume "(w', c', s') \<in> set (rmatch a (w, c, s))"
    from Opt.IH [OF this] obtain x where "s = x @ s'" "withinBounds cs a x" by blast
    then have "s = x @ s' \<and> withinBounds cs (Opt a) x" by (simp add: withinBounds_def)
    then show ?thesis by blast
  next
    assume "(w', c', s') = (w, c, s)"
    then have "s = [] @ s' \<and> withinBounds cs (Opt a) []"
      by (simp add: withinBounds_def countIn_def split: option.splits)
    then show ?thesis by blast
  qed
next
  case (Star k)
  then have "(w', s') \<in> set (classRun k w s)" by auto
  from classRun_sound [OF this] obtain x where x: "s = x @ s'" "\<forall>ch\<in>set x. inClass k ch"
    by blast
  have "withinBounds cs (Star k) x"
    using withinBounds_class [OF x(2), of cs] by (simp add: withinBounds_def)
  with x(1) show ?case by blast
next
  case (Plus k)
  then obtain ch t where s: "s = ch # t" and k: "inClass k ch"
    and r: "(w', s') \<in> set (classRun k (isWordChar ch) t)"
    by (auto split: list.splits if_splits)
  from classRun_sound [OF r] obtain x where x: "t = x @ s'" "\<forall>ch\<in>set x. inClass k ch"
    by blast
  from k x(2) have all: "\<forall>c\<in>set (ch # x). inClass k c" by simp
  have "withinBounds cs (Plus k) (ch # x)"
    using withinBounds_class [OF all, of cs] by (simp add: withinBounds_def)
  moreover have "s = (ch # x) @ s'" using s x(1) by simp
  ultimately show ?case by blast
next
  case WordB
  then have "s = [] @ s' \<and> withinBounds cs WordB []"
    by (auto simp: withinBounds_def countIn_def split: if_splits)
  then show ?case by blast
next
  case Eos
  then have "s = [] @ s' \<and> withinBounds cs Eos []"
    by (auto simp: withinBounds_def countIn_def split: if_splits)
  then show ?case by blast
next
  case (Cap a)
  then obtain c0 where "(w', c0, s') \<in> set (rmatch a (w, c, s))" by auto
  from Cap.IH [OF this] obtain x where "s = x @ s'" "withinBounds cs a x" by blast
  then have "s = x @ s' \<and> withinBounds cs (Cap a) x" by (simp add: withinBounds_def)
  then show ?case by blast
qed

lemma firstMatch_mem: "firstMatch rs st = Some x \<Longrightarrow> \<exists>r\<in>set rs. x \<in> set (rmatch r st)"
  by (induction rs) (auto split: list.splits)

lemma firstMatch_None: "firstMatch rs st = None \<Longrightarrow> r \<in> set rs \<Longrightarrow> rmatch r st = []"
  by (induction rs) (auto split: list.splits)

lemma nonspace_matches: "\<not> isSpace ch \<Longrightarrow> rmatch (Plus CNonSpace) (w, c, ch # s) \<noteq> []"
  by (simp add: classRun_ne)


lemma matchAll_Nil:
  assumes ns: "Plus CNonSpace \<in> set rs"
  shows "matchAll rs w s = [] \<Longrightarrow> \<forall>ch\<in>set s. isSpace ch"
proof (induction s arbitrary: w)
  case Nil
  then show ?case by simp
next
  case (Cons ch s)
  have fm: "firstMatch rs (w, None, ch # s) = None"
  proof (rule ccontr)
    assume "firstMatch rs (w, None, ch # s) \<noteq> None"
    then obtain w1 c1 t1 where "firstMatch rs (w, None, ch # s) = Some (w1, c1, t1)"
      by (metis not_Some_eq prod_cases3)
    then have "matchAll rs w (ch # s) \<noteq> []"
      by (subst matchAll.simps) simp
    with Cons.prems show False by simp
  qed
  then have "matchAll rs w (ch # s) = matchAll rs (isWordChar ch) s"
    by (subst matchAll.simps) simp
  with Cons.prems have "matchAll rs (isWordChar ch) s = []" by simp
  from Cons.IH [OF this] have rest: "\<forall>c\<in>set s. isSpace c" .
  have "isSpace ch"
    using firstMatch_None [OF fm ns] nonspace_matches [of ch w None s] by blast
  with rest show ?case by simp
qed

lemma matchAll_single:
  assumes ns: "Plus CNonSpace \<in> set rs" and ml: "\<forall>r\<in>set rs. 1 \<le> minLen r"
    and one: "matchAll rs w s = [t]"
    and s: "s \<noteq> []" "\<not> isSpace (hd s)" "\<not> isSpace (last s)"
  shows "t = s \<and> (\<exists>r\<in>set rs. \<exists>w' c'. (w', c', []) \<in> set (rmatch r (w, None, s)))"
proof -
  obtain ch s0 where s0: "s = ch # s0" using s(1) by (cases s) auto
  with s(2) have "rmatch (Plus CNonSpace) (w, None, s) \<noteq> []"
    using nonspace_matches by simp
  with ns have "firstMatch rs (w, None, s) \<noteq> None"
    using firstMatch_None by blast
  then obtain w1 c1 t1 where fm: "firstMatch rs (w, None, s) = Some (w1, c1, t1)"
    by (metis not_Some_eq prod_cases3)
  from firstMatch_mem [OF fm] obtain r where r: "r \<in> set rs"
    and m: "(w1, c1, t1) \<in> set (rmatch r (w, None, s))" by blast
  from rmatch_sound [OF m, of "[]"] obtain x where x: "s = x @ t1" "withinBounds [] r x"
    by blast
  from x(2) ml r have "1 \<le> length x" by (auto simp: withinBounds_def)
  with x(1) have lt: "length t1 < length s" by (cases x) simp_all
  have tk: "take (length s - length t1) s = x" using x(1) by simp
  from one fm lt tk have "[t] = x # matchAll rs w1 t1"
    by (subst (asm) matchAll.simps) simp
  then have tx: "t = x" and rest: "matchAll rs w1 t1 = []" by simp_all
  from matchAll_Nil [OF ns rest] have sp: "\<forall>c\<in>set t1. isSpace c" .
  have "t1 = []"
  proof (rule ccontr)
    assume ne: "t1 \<noteq> []"
    then have "last s = last t1" using x(1) by simp
    moreover have "last t1 \<in> set t1" using ne by simp
    ultimately show False using sp s(3) by auto
  qed
  with x(1) tx m r show ?thesis by auto
qed

lemma map_of_zip_mem: "map_of (zip xs ys) a = Some b \<Longrightarrow> a \<in> set xs \<and> b \<in> set ys"
  by (auto dest!: map_of_SomeD dest: set_zip_leftD set_zip_rightD)

lemma isSpace_upperChar: "isSpace (upperChar c) = isSpace c"
proof (cases "map_of (zip ''abcdefghijklmnopqrstuvwxyz'' ''ABCDEFGHIJKLMNOPQRSTUVWXYZ'') c")
  case None
  then show ?thesis by (simp add: upperChar_def)
next
  case (Some u)
  from map_of_zip_mem [OF Some] have "\<not> isSpace c" and "\<not> isSpace u"
    by (auto simp: isSpace_def)
  then show ?thesis using Some by (simp add: upperChar_def)
qed

lemma trim_ends:
  assumes "trim c \<noteq> []"
  shows "\<not> isSpace (hd (trim c)) \<and> \<not> isSpace (last (trim c))"
proof -
  let ?d = "dropWhile isSpace c"
  have t: "trim c = rev (dropWhile isSpace (rev ?d))" by (simp add: trim_def)
  have dne: "dropWhile isSpace (rev ?d) \<noteq> []" using assms t by simp
  have l: "last (trim c) = hd (dropWhile isSpace (rev ?d))"
    using dne by (simp add: t last_rev)
  have "\<not> isSpace (hd (dropWhile isSpace (rev ?d)))"
    using dne by (rule hd_dropWhile)
  with l have last: "\<not> isSpace (last (trim c))" by simp
  have "?d = rev (rev ?d)" by simp
  also have "\<dots> = rev (takeWhile isSpace (rev ?d) @ dropWhile isSpace (rev ?d))"
    by (simp only: takeWhile_dropWhile_id)
  also have "\<dots> = rev (dropWhile isSpace (rev ?d)) @ rev (takeWhile isSpace (rev ?d))"
    by (rule rev_append)
  finally have d: "?d = trim c @ rev (takeWhile isSpace (rev ?d))"
    by (simp only: t)
  from assms d have "hd ?d = hd (trim c)" by (metis hd_append2)
  moreover have "?d \<noteq> []"
  proof
    assume e: "?d = []"
    have "trim c = []" by (simp only: t e rev.simps dropWhile.simps)
    with assms show False by simp
  qed
  then have "\<not> isSpace (hd ?d)" by (rule hd_dropWhile)
  ultimately show ?thesis using last by simp
qed

lemma tokenize_single:
  assumes "tokenize input = [t]"
  shows "t \<noteq> [] \<and> (\<exists>r\<in>set tokenizerRegex. \<exists>w' c'. (w', c', []) \<in> set (rmatch r (False, None, t)))"
proof -
  define u where "u = toUpperCase (trim (replaceAll cleanRegex '' '' False input))"
  have one: "matchAll tokenizerRegex False u = [t]"
    using assms by (simp add: tokenize_def u_def)
  have ns: "Plus CNonSpace \<in> set tokenizerRegex" by (simp add: tokenizerRegex_def)
  have ml: "\<forall>r\<in>set tokenizerRegex. 1 \<le> minLen r"
    using tokenizer_minLen by (simp add: list_all_iff)
  have une: "u \<noteq> []"
  proof
    assume e: "u = []"
    have "firstMatch tokenizerRegex (False, None, []) = None"
    proof (rule ccontr)
      assume "firstMatch tokenizerRegex (False, None, []) \<noteq> None"
      then obtain x where "firstMatch tokenizerRegex (False, None, []) = Some x" by auto
      from firstMatch_mem [OF this] obtain r where r: "r \<in> set tokenizerRegex"
        and "x \<in> set (rmatch r (False, None, []))" by blast
      then obtain w' c' s' where "(w', c', s') \<in> set (rmatch r (False, None, []))"
        by (metis prod_cases3)
      from rmatch_sound [OF this, of "[]"] obtain y where "[] = y @ s'" "withinBounds [] r y"
        by blast
      with ml r show False by (auto simp: withinBounds_def)
    qed
    then have "matchAll tokenizerRegex False [] = []"
      by (subst matchAll.simps) simp
    with one e show False by simp
  qed
  then have tne: "trim (replaceAll cleanRegex '' '' False input) \<noteq> []"
    by (auto simp: u_def toUpperCase_def)
  from trim_ends [OF tne] have "\<not> isSpace (hd u)" and "\<not> isSpace (last u)"
    using tne by (simp_all add: u_def toUpperCase_def hd_map last_map isSpace_upperChar)
  from matchAll_single [OF ns ml one une this] une show ?thesis by auto
qed


lemma searchFirst_sound:
  "searchFirst r w s = Some (w', c', s') \<Longrightarrow> \<exists>pre x. s = pre @ x @ s' \<and> withinBounds cs r x"
proof (induction s arbitrary: w)
  case Nil
  then have "(w', c', s') \<in> set (rmatch r (w, None, []))"
    by (auto split: list.splits)
  from rmatch_sound [OF this, of cs] obtain x where "[] = x @ s'" "withinBounds cs r x" by blast
  then have "[] = [] @ x @ s' \<and> withinBounds cs r x" by simp
  then show ?case by blast
next
  case (Cons ch s)
  show ?case
  proof (cases "rmatch r (w, None, ch # s)")
    case Nil
    with Cons.prems have "searchFirst r (isWordChar ch) s = Some (w', c', s')" by simp
    from Cons.IH [OF this] obtain pre x where "s = pre @ x @ s'" "withinBounds cs r x" by blast
    then have "ch # s = (ch # pre) @ x @ s' \<and> withinBounds cs r x" by simp
    then show ?thesis by blast
  next
    case (Cons y ys)
    with Cons.prems have "(w', c', s') \<in> set (rmatch r (w, None, ch # s))" by simp
    from rmatch_sound [OF this, of cs] obtain x where "ch # s = x @ s'" "withinBounds cs r x"
      by blast
    then have "ch # s = [] @ x @ s' \<and> withinBounds cs r x" by simp
    then show ?thesis by blast
  qed
qed

lemma wholeString_sound:
  assumes "wholeStringMatchesPattern t q"
  shows "withinBounds cs q t"
proof -
  from assms obtain z where "z \<in> set (rmatch (Seq q Eos) (False, None, t))"
    unfolding wholeStringMatchesPattern_def by (meson last_in_set)
  then obtain w1 c1 s1 where m: "(w1, c1, s1) \<in> set (rmatch q (False, None, t))"
    and e: "z \<in> set (rmatch Eos (w1, c1, s1))"
    by auto
  from e have "s1 = []" by (auto split: if_splits)
  with rmatch_sound [OF m, of cs] show ?thesis by auto
qed

lemma separates_False:
  assumes "separates cs r q" and "withinBounds cs r t" and "withinBounds cs q x"
    and "countIn cs x \<le> countIn cs t"
  shows False
  using assms by (auto simp: separates_def withinBounds_def split: option.splits)

lemma tokenizer_mhh:
  "list_all (\<lambda>r. list_ex (\<lambda>cs. separates cs r mhhRegex) separators) tokenizerRegex"
  by code_simp

lemma tokenizer_streets:
  "list_all (\<lambda>q. list_all (\<lambda>r. list_ex (\<lambda>cs. separates cs r q \<or> separates cs q r) separators)
     tokenizerRegex) marbleHillStreetRegexes"
  by code_simp

lemma token_not_mhh:
  assumes r: "r \<in> set tokenizerRegex" and m: "(w', c', []) \<in> set (rmatch r (False, None, t))"
  shows "mhhMatches t = None"
proof (rule ccontr)
  assume "mhhMatches t \<noteq> None"
  then obtain w1 c1 s1 where sf: "searchFirst mhhRegex False t = Some (w1, c1, s1)"
    unfolding mhhMatches_def by (auto simp: split_paired_all)
  from tokenizer_mhh r obtain cs where sep: "separates cs r mhhRegex"
    by (auto simp: list_all_iff list_ex_iff)
  from rmatch_sound [OF m, of cs] have bt: "withinBounds cs r t" by simp
  from searchFirst_sound [OF sf, of cs] obtain pre x where x: "t = pre @ x @ s1"
    and bx: "withinBounds cs mhhRegex x" by blast
  have "countIn cs x \<le> countIn cs t" by (simp add: x countIn_append)
  from separates_False [OF sep bt bx this] show False .
qed

lemma token_not_street:
  assumes r: "r \<in> set tokenizerRegex" and m: "(w', c', []) \<in> set (rmatch r (False, None, t))"
  shows "\<not> list_ex (wholeStringMatchesPattern t) marbleHillStreetRegexes"
proof
  assume "list_ex (wholeStringMatchesPattern t) marbleHillStreetRegexes"
  then obtain q where q: "q \<in> set marbleHillStreetRegexes" and wq: "wholeStringMatchesPattern t q"
    by (auto simp: list_ex_iff)
  from tokenizer_streets q r obtain cs where sep: "separates cs r q \<or> separates cs q r"
    by (auto simp: list_all_iff list_ex_iff)
  from rmatch_sound [OF m, of cs] have bt: "withinBounds cs r t" by simp
  from wholeString_sound [OF wq] have bq: "withinBounds cs q t" .
  from sep show False
  proof
    assume "separates cs r q"
    from separates_False [OF this bt bq] show False by simp
  next
    assume "separates cs q r"
    from separates_False [OF this bq bt] show False by simp
  qed
qed

lemma resolved_single: "resolved [t] = initialState [t]"
proof -
  have "countHousenumberTokens [t] \<le> 1"
    using countHousenumberTokens_le [of "[t]"] by simp
  then show ?thesis
    unfolding resolved_def by (subst resolveLoop.simps) (simp add: initialState_def)
qed

lemma count_single: "countHousenumberTokens [t] = (if beginsWithDigit t then 1 else 0)"
  using countLoop_stop [of 1 "[t]"] by (simp add: countHousenumberTokens_def tokenAt_def)

lemma empty_street_checks:
  "mhhMatches [] = None"
  "\<not> list_ex (wholeStringMatchesPattern []) marbleHillStreetRegexes"
  "\<not> wholeStringMatchesPattern [] west22xRegex"
  by code_simp+

lemma parseTokens_single:
  assumes "t \<noteq> []" and "mhhMatches t = None"
    and "\<not> list_ex (wholeStringMatchesPattern t) marbleHillStreetRegexes"
  shows "parseTokens [t] =
     Inr \<lparr>housenumber = (if beginsWithDigit t then Some t else None),
          street = (if beginsWithDigit t then None else Some t),
          borough = None, postcode = None, marble_hill = None\<rparr>"
proof (cases "beginsWithDigit t")
  case True
  then have fc: "finalCount [t] = 1"
    by (simp add: finalCount_def count_single reclassify_def keptTokens_def resolved_single
        initialState_def)
  have "thirdCheck [] (parseInt t) 9 = False"
    using empty_street_checks(3) by (simp add: thirdCheck_def split: option.splits)
  then have "marbleHillChecks [] 9 1 [t] [] = Inr (9, False)"
    using empty_street_checks by (simp add: marbleHillChecks_def)
  then show ?thesis
    using True assms(1)
    by (simp add: parseTokens_stages fc keptTokens_def resolved_single initialState_def
        fallbackBoro_def optText_def)
next
  case False
  then have fc: "finalCount [t] = 0"
    by (simp add: finalCount_def count_single reclassify_def)
  have "marbleHillChecks [] 9 0 [t] t = Inr (9, False)"
    using assms(2,3) by (simp add: marbleHillChecks_def)
  then show ?thesis
    using False assms(1)
    by (simp add: parseTokens_stages fc keptTokens_def resolved_single initialState_def
        fallbackBoro_def optText_def)
qed

text \<open>
  Claim C10: for every input whose tokenization is exactly one token, the output has
  no borough, no postcode and no \<open>marble_hill\<close>: the token is the housenumber when it
  begins with a digit and the street otherwise, whatever it looks like. (The loop of
  step 3 needs two tokens beyond the housenumber count, and no single token of the
  tokenizer is a Marble Hill street or contains MARBLE HILL HOUSES.)
\<close>

theorem single_token:
  "tokenize input = [t] \<Longrightarrow>
   parseNycAddress input =
     Inr \<lparr>housenumber = (if beginsWithDigit t then Some t else None),
          street = (if beginsWithDigit t then None else Some t),
          borough = None, postcode = None, marble_hill = None\<rparr>"
proof -
  assume one: "tokenize input = [t]"
  from tokenize_single [OF one] obtain r w' c' where "t \<noteq> []" "r \<in> set tokenizerRegex"
    "(w', c', []) \<in> set (rmatch r (False, None, t))" by blast
  then have "t \<noteq> []" "mhhMatches t = None"
    "\<not> list_ex (wholeStringMatchesPattern t) marbleHillStreetRegexes"
    using token_not_mhh token_not_street by blast+
  from parseTokens_single [OF this] show ?thesis
    by (simp add: parseNycAddress_def one)
qed

theorem single_token_witness:
  "tokenize ''10001'' = [''10001'']
   \<and> parseNycAddress ''10001'' =
       Inr \<lparr>housenumber = Some ''10001'', street = None, borough = None, postcode = None,
            marble_hill = None\<rparr>
   \<and> tokenize ''Marble Hill'' = [''MARBLE HILL'']
   \<and> parseNycAddress ''Marble Hill'' =
       Inr \<lparr>housenumber = None, street = Some ''MARBLE HILL'', borough = None, postcode = None,
            marble_hill = None\<rparr>"
proof -
  have a: "tokenize ''10001'' = [''10001'']" by code_simp
  have b: "tokenize ''Marble Hill'' = [''MARBLE HILL'']" by code_simp
  have c: "beginsWithDigit ''10001''" "\<not> beginsWithDigit ''MARBLE HILL''" by code_simp+
  from single_token [OF a] single_token [OF b] a b c show ?thesis by simp
qed

section \<open>The cleaning of the input\<close>

lemma inClass_sep: "inClass (CSpaceOr '','') = isSep"
  by (rule ext) (simp add: isSep_def)

lemma inClass_dot: "inClass (CChars ''.'') = isDot"
  by (rule ext) (simp add: isDot_def)

lemma rmatch_Lit_Nil: "rmatch (Lit []) st = [st]"
  by (cases st) simp

lemma concat_Lit_Nil: "concat (map (rmatch (Lit [])) xs) = xs"
  by (induction xs) (simp_all add: rmatch_Lit_Nil)

lemma rmatch_Seq_Nil: "rmatch (Seq r (Lit [])) st = rmatch r st"
  by (simp add: concat_Lit_Nil)

lemma seqs_two: "seqs [a, b] = Seq a (Seq b (Lit []))"
  by (simp add: seqs_def)

lemma classRun_hd: "\<exists>w' rest. classRun k w s = (w', dropWhile (inClass k) s) # rest"
proof (induction s arbitrary: w)
  case Nil
  then show ?case by simp
next
  case (Cons c s)
  show ?case
  proof (cases "inClass k c")
    case True
    from Cons.IH [of "isWordChar c"] obtain w' rest
      where "classRun k (isWordChar c) s = (w', dropWhile (inClass k) s) # rest" by blast
    with True show ?thesis by simp
  next
    case False
    then show ?thesis by simp
  qed
qed

lemma star_dots_then:
  assumes "\<And>w c t. rmatch r (w, c, CHR ''.'' # t) = []"
  shows "\<exists>w'. rmatch (Seq (Star (CChars ''.'')) r) (w, c, s)
              = rmatch r (w', c, dropWhile (\<lambda>x. x = CHR ''.'') s)"
proof (induction s arbitrary: w)
  case Nil
  then show ?case by auto
next
  case (Cons ch s)
  show ?case
  proof (cases "ch = CHR ''.''")
    case True
    from Cons.IH [of "isWordChar ch"] obtain w'
      where "rmatch (Seq (Star (CChars ''.'')) r) (isWordChar ch, c, s)
              = rmatch r (w', c, dropWhile (\<lambda>x. x = CHR ''.'') s)" by blast
    then show ?thesis using True assms by (auto simp: comp_def)
  next
    case False
    then show ?thesis by auto
  qed
qed

lemma clean_first:
  "\<exists>w'. rmatch (seqs [Star (CChars ''.''), Plus (CSpaceOr '','')]) (w, c, s)
     = rmatch (Plus (CSpaceOr '','')) (w', c, dropWhile (\<lambda>x. x = CHR ''.'') s)"
proof -
  have "\<And>w c t. rmatch (Seq (Plus (CSpaceOr '','')) (Lit [])) (w, c, CHR ''.'' # t) = []"
    by (simp add: isSpace_def)
  from star_dots_then [of "Seq (Plus (CSpaceOr '','')) (Lit [])", OF this, of w c s]
  show ?thesis unfolding seqs_two rmatch_Seq_Nil .
qed

lemma plus_hd:
  "inClass k ch \<Longrightarrow>
   \<exists>w' rest. rmatch (Plus k) (w, c, ch # t) = (w', c, dropWhile (inClass k) t) # rest"
  using classRun_hd [of k "isWordChar ch" t] by auto

lemma plus_Nil: "\<not> (s \<noteq> [] \<and> inClass k (hd s)) \<Longrightarrow> rmatch (Plus k) (w, c, s) = []"
  by (cases s) auto

lemma clean_second_mem:
  assumes "x \<in> set (rmatch (seqs [Plus (CChars ''.''), Eos]) (w, c, s))"
  shows "snd (snd x) = [] \<and> s \<noteq> [] \<and> (\<forall>ch\<in>set s. ch = CHR ''.'')"
proof -
  from assms
  have "x \<in> set (concat (map (rmatch (Seq Eos (Lit []))) (rmatch (Plus (CChars ''.'')) (w, c, s))))"
    by (simp only: seqs_two rmatch.simps)
  then obtain y where y: "y \<in> set (rmatch (Plus (CChars ''.'')) (w, c, s))"
    and "x \<in> set (rmatch (Seq Eos (Lit [])) y)" by (auto simp del: rmatch.simps)
  then have xe: "x \<in> set (rmatch Eos y)" by (simp only: rmatch_Seq_Nil)
  obtain w1 c1 s1 where yy: "y = (w1, c1, s1)" by (cases y)
  from y xe have m: "(w1, c1, s1) \<in> set (rmatch (Plus (CChars ''.'')) (w, c, s))"
    and e: "x \<in> set (rmatch Eos (w1, c1, s1))" by (simp_all add: yy)
  from e have x: "s1 = []" "snd (snd x) = []" by (auto split: if_splits)
  from m obtain ch t where s: "s = ch # t" and k: "ch = CHR ''.''"
    and r: "(w1, s1) \<in> set (classRun (CChars ''.'') (isWordChar ch) t)"
    by (auto split: list.splits if_splits)
  from classRun_sound [OF r] x(1) have "\<forall>a\<in>set t. a = CHR ''.''" by auto
  with s k x(2) show ?thesis by simp
qed

lemma clean_second_ne:
  assumes "s \<noteq> []" and "\<forall>ch\<in>set s. ch = CHR ''.''"
  shows "rmatch (seqs [Plus (CChars ''.''), Eos]) (w, c, s) \<noteq> []"
proof -
  from assms obtain t where s: "s = CHR ''.'' # t" and t: "\<forall>ch\<in>set t. ch = CHR ''.''"
    by (cases s) auto
  have "inClass (CChars ''.'') (CHR ''.'')" by simp
  from plus_hd [OF this, of w c t] obtain w' rest where
    p: "rmatch (Plus (CChars ''.'')) (w, c, CHR ''.'' # t)
        = (w', c, dropWhile (inClass (CChars ''.'')) t) # rest" by blast
  have "dropWhile (inClass (CChars ''.'')) t = []" using t by simp
  with p show ?thesis unfolding s seqs_two by (simp add: concat_Lit_Nil)
qed

text \<open>What the cleaning expression matches at a position: the text left after the match.\<close>

lemma firstMatch_clean:
  "map_option (\<lambda>x. snd (snd x)) (firstMatch cleanRegex (w, c, s)) =
     (case dropWhile isDot s of
        [] \<Rightarrow> if s = [] then None else Some []
      | ch # d \<Rightarrow> if isSep ch then Some (dropWhile isSep d) else None)"
proof -
  let ?a1 = "seqs [Star (CChars ''.''), Plus (CSpaceOr '','')]"
  let ?a2 = "seqs [Plus (CChars ''.''), Eos]"
  have dd: "isDot = (\<lambda>x. x = CHR ''.'')" by (rule ext) (simp add: isDot_def)
  obtain w' where a1: "rmatch ?a1 (w, c, s) = rmatch (Plus (CSpaceOr '','')) (w', c, dropWhile isDot s)"
    using clean_first unfolding dd by blast
  have fm: "firstMatch cleanRegex (w, c, s) =
     (case rmatch ?a1 (w, c, s) of
        [] \<Rightarrow> (case rmatch ?a2 (w, c, s) of [] \<Rightarrow> None | x # _ \<Rightarrow> Some x)
      | x # _ \<Rightarrow> Some x)"
    by (simp add: cleanRegex_def split: list.splits)
  show ?thesis
  proof (cases "dropWhile isDot s")
    case Nil
    then have all: "\<forall>ch\<in>set s. ch = CHR ''.''" by (simp add: dropWhile_eq_Nil_conv isDot_def)
    have e1: "rmatch ?a1 (w, c, s) = []" by (simp add: a1 Nil)
    show ?thesis
    proof (cases "s = []")
      case True
      have "rmatch ?a2 (w, c, []) = []" by (simp add: seqs_two)
      then have "rmatch ?a2 (w, c, s) = []" by (simp only: True)
      with e1 have "firstMatch cleanRegex (w, c, s) = None" by (simp only: fm list.case)
      then show ?thesis unfolding Nil list.case True by simp
    next
      case False
      from clean_second_ne [OF False all, of w c] obtain x xs
        where x: "rmatch ?a2 (w, c, s) = x # xs" by (cases "rmatch ?a2 (w, c, s)") auto
      then have "x \<in> set (rmatch ?a2 (w, c, s))" by simp
      from clean_second_mem [OF this] have x2: "snd (snd x) = []" by simp
      from e1 x have "firstMatch cleanRegex (w, c, s) = Some x" by (simp only: fm list.case)
      then show ?thesis by (simp only: Nil False list.case if_False option.map x2)
    qed
  next
    case (Cons ch d)
    then have nd: "\<not> isDot ch" by (metis hd_dropWhile list.sel(1) list.distinct(1))
    have "ch \<in> set s" by (metis Cons list.set_intros(1) set_dropWhileD)
    with nd have notall: "\<not> (\<forall>a\<in>set s. a = CHR ''.'')" by (auto simp: isDot_def)
    show ?thesis
    proof (cases "isSep ch")
      case True
      then have "inClass (CSpaceOr '','') ch" by (simp add: inClass_sep)
      from plus_hd [OF this, of w' c d] obtain w2 rest where
        "rmatch (Plus (CSpaceOr '','')) (w', c, ch # d) = (w2, c, dropWhile isSep d) # rest"
        unfolding inClass_sep by blast
      then have "rmatch ?a1 (w, c, s) = (w2, c, dropWhile isSep d) # rest"
        by (simp only: a1 Cons)
      then have "firstMatch cleanRegex (w, c, s) = Some (w2, c, dropWhile isSep d)"
        by (simp only: fm list.case)
      then show ?thesis by (simp only: Cons True list.case if_True option.map snd_conv)
    next
      case False
      then have "rmatch (Plus (CSpaceOr '','')) (w', c, ch # d) = []"
        by (intro plus_Nil) (simp add: inClass_sep)
      then have e1: "rmatch ?a1 (w, c, s) = []" by (simp only: a1 Cons)
      have "rmatch ?a2 (w, c, s) = []"
      proof (rule ccontr)
        assume "rmatch ?a2 (w, c, s) \<noteq> []"
        then obtain x where "x \<in> set (rmatch ?a2 (w, c, s))"
          by (meson last_in_set)
        from clean_second_mem [OF this] notall show False by simp
      qed
      with e1 have "firstMatch cleanRegex (w, c, s) = None" by (simp only: fm list.case)
      then show ?thesis by (simp only: Cons False list.case if_False option.map)
    qed
  qed
qed

lemma firstMatch_Nil_clean: "firstMatch cleanRegex (w, c, []) = None"
  using firstMatch_clean [of w c "[]"] by simp

lemma replaceAll_Nil_clean: "replaceAll cleanRegex rep w [] = []"
  by (subst replaceAll.simps) (simp add: firstMatch_Nil_clean)

text \<open>One step of the cleaning, by the text at the position.\<close>

lemma replaceAll_clean:
  "\<exists>w'. replaceAll cleanRegex rep w s =
     (case dropWhile isDot s of
        [] \<Rightarrow> if s = [] then [] else rep
      | ch # d \<Rightarrow>
          if isSep ch then rep @ replaceAll cleanRegex rep w' (dropWhile isSep d)
          else hd s # replaceAll cleanRegex rep w' (tl s))"
proof (cases "firstMatch cleanRegex (w, None, s)")
  case None
  with firstMatch_clean [of w None s]
  have c: "(case dropWhile isDot s of
        [] \<Rightarrow> if s = [] then None else Some []
      | ch # d \<Rightarrow> if isSep ch then Some (dropWhile isSep d) else None) = None"
    by simp
  show ?thesis
  proof (cases s)
    case Nil
    then show ?thesis by (simp add: replaceAll_Nil_clean)
  next
    case (Cons a s')
    from c Cons obtain ch d where d: "dropWhile isDot s = ch # d" and ns: "\<not> isSep ch"
      by (auto split: list.splits if_splits)
    have "replaceAll cleanRegex rep w s = a # replaceAll cleanRegex rep (isWordChar a) s'"
      using None Cons by (subst replaceAll.simps) simp
    then show ?thesis unfolding d using ns Cons by auto
  qed
next
  case (Some x)
  obtain w' c' t where x: "x = (w', c', t)" by (cases x)
  with Some firstMatch_clean [of w None s]
  have c: "(case dropWhile isDot s of
        [] \<Rightarrow> if s = [] then None else Some []
      | ch # d \<Rightarrow> if isSep ch then Some (dropWhile isSep d) else None) = Some t"
    by simp
  have lt: "length t < length s"
  proof (cases "dropWhile isDot s")
    case Nil
    with c show ?thesis by (auto split: if_splits)
  next
    case (Cons ch d)
    with c have "t = dropWhile isSep d" by (auto split: if_splits)
    then have "length t \<le> length d" by (simp add: length_dropWhile_le)
    also have "\<dots> < length (dropWhile isDot s)" by (simp add: Cons)
    also have "\<dots> \<le> length s" by (rule length_dropWhile_le)
    finally show ?thesis .
  qed
  have r: "replaceAll cleanRegex rep w s = rep @ replaceAll cleanRegex rep w' t"
    using Some x lt by (subst replaceAll.simps) simp
  show ?thesis
  proof (cases "dropWhile isDot s")
    case Nil
    with c have "t = []" "s \<noteq> []" by (auto split: if_splits)
    then show ?thesis unfolding Nil using r by (simp add: replaceAll_Nil_clean)
  next
    case (Cons ch d)
    with c have "t = dropWhile isSep d" "isSep ch" by (auto split: if_splits)
    then show ?thesis unfolding Cons using r by auto
  qed
qed

lemma filter_none: "\<forall>c\<in>set xs. \<not> P c \<Longrightarrow> filter P xs = []"
  by (simp add: filter_empty_conv)

lemma textChar_split:
  assumes "dropWhile isDot s = ch # d" and "isSep ch"
  shows "filter textChar s = filter textChar (dropWhile isSep d)"
proof -
  have "s = takeWhile isDot s @ ch # takeWhile isSep d @ dropWhile isSep d"
    using assms(1) by (metis takeWhile_dropWhile_id)
  then have "filter textChar s =
      filter textChar (takeWhile isDot s) @ filter textChar [ch]
        @ filter textChar (takeWhile isSep d) @ filter textChar (dropWhile isSep d)"
    by (metis filter_append append_Cons append_Nil)
  moreover have "filter textChar (takeWhile isDot s) = []"
    by (rule filter_none) (auto simp: textChar_def isDot_def dest: set_takeWhileD)
  moreover have "filter textChar (takeWhile isSep d) = []"
    by (rule filter_none) (auto simp: textChar_def isSep_def dest: set_takeWhileD)
  moreover have "filter textChar [ch] = []"
    using assms(2) by (auto simp: textChar_def isSep_def)
  ultimately show ?thesis by simp
qed

lemma clean_textChars:
  "filter textChar (replaceAll cleanRegex '' '' w s) = filter textChar s"
proof (induction s arbitrary: w rule: length_induct)
  case (1 s)
  obtain w' where u: "replaceAll cleanRegex '' '' w s =
     (case dropWhile isDot s of
        [] \<Rightarrow> if s = [] then [] else '' ''
      | ch # d \<Rightarrow>
          if isSep ch then '' '' @ replaceAll cleanRegex '' '' w' (dropWhile isSep d)
          else hd s # replaceAll cleanRegex '' '' w' (tl s))"
    using replaceAll_clean by blast
  have sp: "\<not> textChar (CHR '' '')" by (simp add: textChar_def isSpace_def)
  show ?case
  proof (cases "dropWhile isDot s")
    case Nil
    then have "\<forall>c\<in>set s. isDot c" by (simp add: dropWhile_eq_Nil_conv)
    then have "filter textChar s = []"
      by (intro filter_none) (auto simp: textChar_def isDot_def)
    then show ?thesis using u sp unfolding Nil by (simp split: if_splits)
  next
    case (Cons ch d)
    then have ne: "s \<noteq> []" by auto
    show ?thesis
    proof (cases "isSep ch")
      case True
      have "length (dropWhile isSep d) < length s"
      proof -
        have "length (dropWhile isSep d) \<le> length d" by (rule length_dropWhile_le)
        also have "\<dots> < length (dropWhile isDot s)" by (simp add: Cons)
        also have "\<dots> \<le> length s" by (rule length_dropWhile_le)
        finally show ?thesis .
      qed
      with 1 have "filter textChar (replaceAll cleanRegex '' '' w' (dropWhile isSep d))
                     = filter textChar (dropWhile isSep d)" by blast
      moreover have "replaceAll cleanRegex '' '' w s
                  = '' '' @ replaceAll cleanRegex '' '' w' (dropWhile isSep d)"
        using u True unfolding Cons by simp
      ultimately show ?thesis
        using sp textChar_split [OF Cons True] by simp
    next
      case False
      have "length (tl s) < length s" using ne by (cases s) auto
      with 1 have "filter textChar (replaceAll cleanRegex '' '' w' (tl s)) = filter textChar (tl s)"
        by blast
      moreover have "replaceAll cleanRegex '' '' w s
                  = hd s # replaceAll cleanRegex '' '' w' (tl s)"
        using u False unfolding Cons by simp
      moreover have "filter textChar s = filter textChar (hd s # tl s)" using ne by simp
      ultimately show ?thesis by simp
    qed
  qed
qed

lemma filter_dropWhile_disjoint:
  "(\<And>c. P c \<Longrightarrow> \<not> Q c) \<Longrightarrow> filter P (dropWhile Q xs) = filter P xs"
  by (induction xs) auto

lemma trim_textChars: "filter textChar (trim s) = filter textChar s"
proof -
  have d: "\<And>xs. filter textChar (dropWhile isSpace xs) = filter textChar xs"
    by (rule filter_dropWhile_disjoint) (simp add: textChar_def)
  show ?thesis
    unfolding trim_def by (simp only: rev_filter [symmetric] d rev_rev_ident)
qed

lemma upperChar_fixes:
  assumes "c \<notin> set ''abcdefghijklmnopqrstuvwxyz''"
  shows "upperChar c = c"
proof (cases "map_of (zip ''abcdefghijklmnopqrstuvwxyz'' ''ABCDEFGHIJKLMNOPQRSTUVWXYZ'') c")
  case None
  then show ?thesis by (simp add: upperChar_def)
next
  case (Some u)
  from map_of_zip_mem [OF Some] assms show ?thesis by simp
qed

lemma upperChar_range:
  "upperChar c \<notin> set ''abcdefghijklmnopqrstuvwxyz''"
proof (cases "map_of (zip ''abcdefghijklmnopqrstuvwxyz'' ''ABCDEFGHIJKLMNOPQRSTUVWXYZ'') c")
  case None
  then have "c \<notin> set ''abcdefghijklmnopqrstuvwxyz''"
    using map_of_zip_is_None [of "''abcdefghijklmnopqrstuvwxyz''" "''ABCDEFGHIJKLMNOPQRSTUVWXYZ''" c]
    by simp
  then show ?thesis using None by (simp add: upperChar_def)
next
  case (Some u)
  from map_of_zip_mem [OF Some] have "u \<in> set ''ABCDEFGHIJKLMNOPQRSTUVWXYZ''" by simp
  then have "u \<notin> set ''abcdefghijklmnopqrstuvwxyz''" by auto
  then show ?thesis using Some by (simp add: upperChar_def)
qed

lemma textChar_upperChar: "textChar (upperChar c) = textChar c"
proof (cases "map_of (zip ''abcdefghijklmnopqrstuvwxyz'' ''ABCDEFGHIJKLMNOPQRSTUVWXYZ'') c")
  case None
  then show ?thesis by (simp add: upperChar_def)
next
  case (Some u)
  from map_of_zip_mem [OF Some] have "textChar c" and "textChar u"
    by (auto simp: textChar_def isSpace_def)
  then show ?thesis using Some by (simp add: upperChar_def)
qed

lemma toUpperCase_textChars:
  "filter textChar (toUpperCase s) = toUpperCase (filter textChar s)"
  by (simp add: toUpperCase_def filter_map comp_def textChar_upperChar)


section \<open>The tokens hold the text\<close>

lemma firstMatch_consumes:  assumes ml: "\<forall>r\<in>set rs. 1 \<le> minLen r"
    and fm: "firstMatch rs (w, c, s) = Some (w1, c1, t1)"
  shows "\<exists>x. s = x @ t1 \<and> x \<noteq> [] \<and> (\<exists>r\<in>set rs. (w1, c1, t1) \<in> set (rmatch r (w, c, s)))"
proof -
  from firstMatch_mem [OF fm] obtain r where r: "r \<in> set rs"
    and m: "(w1, c1, t1) \<in> set (rmatch r (w, c, s))" by blast
  from rmatch_sound [OF m, of "[]"] obtain x where x: "s = x @ t1" "withinBounds [] r x"
    by blast
  from x(2) ml r have "1 \<le> length x" by (auto simp: withinBounds_def)
  then have "x \<noteq> []" by auto
  with x(1) r m show ?thesis by blast
qed

lemma matchAll_Some:
  assumes ml: "\<forall>r\<in>set rs. 1 \<le> minLen r"
    and fm: "firstMatch rs (w, None, s) = Some (w1, c1, t1)"
  shows "\<exists>x. s = x @ t1 \<and> x \<noteq> [] \<and> matchAll rs w s = x # matchAll rs w1 t1"
proof -
  from firstMatch_consumes [OF ml fm] obtain x where x: "s = x @ t1" "x \<noteq> []" by blast
  then have lt: "length t1 < length s" by (cases x) simp_all
  have tk: "take (length s - length t1) s = x" using x(1) by simp
  have "matchAll rs w s = x # matchAll rs w1 t1"
    using fm lt tk by (subst matchAll.simps) simp
  with x show ?thesis by blast
qed

lemma matchAll_None:
  assumes ns: "Plus CNonSpace \<in> set rs"
    and fm: "firstMatch rs (w, None, s) = None"
  shows "s = [] \<and> matchAll rs w s = []
       \<or> (\<exists>ch s'. s = ch # s' \<and> isSpace ch \<and> matchAll rs w s = matchAll rs (isWordChar ch) s')"
proof (cases s)
  case Nil
  then show ?thesis using fm by (subst matchAll.simps) simp
next
  case (Cons ch s')
  have "isSpace ch"
    using firstMatch_None [OF fm ns] nonspace_matches [of ch w None s'] Cons by blast
  moreover have "matchAll rs w s = matchAll rs (isWordChar ch) s'"
    using fm Cons by (subst matchAll.simps) simp
  ultimately show ?thesis using Cons by blast
qed

text \<open>The tokens hold every character of the text that is not white space.\<close>

lemma matchAll_nonspace:
  assumes ns: "Plus CNonSpace \<in> set rs" and ml: "\<forall>r\<in>set rs. 1 \<le> minLen r"
  shows "filter (\<lambda>c. \<not> isSpace c) (concat (matchAll rs w s)) = filter (\<lambda>c. \<not> isSpace c) s"
proof (induction s arbitrary: w rule: length_induct)
  case (1 s)
  show ?case
  proof (cases "firstMatch rs (w, None, s)")
    case None
    from matchAll_None [OF ns None] show ?thesis
    proof
      assume "s = [] \<and> matchAll rs w s = []"
      then show ?thesis by auto
    next
      assume "\<exists>ch s'. s = ch # s' \<and> isSpace ch \<and> matchAll rs w s = matchAll rs (isWordChar ch) s'"
      then obtain ch s' where s: "s = ch # s'" and sp: "isSpace ch"
        and m: "matchAll rs w s = matchAll rs (isWordChar ch) s'" by blast
      from 1 s have "filter (\<lambda>c. \<not> isSpace c) (concat (matchAll rs (isWordChar ch) s'))
                        = filter (\<lambda>c. \<not> isSpace c) s'" by simp
      then show ?thesis using s sp m by simp
    qed
  next
    case (Some y)
    obtain w1 c1 t1 where y: "y = (w1, c1, t1)" by (cases y)
    from matchAll_Some [OF ml Some [unfolded y]] obtain x where x: "s = x @ t1" "x \<noteq> []"
      and m: "matchAll rs w s = x # matchAll rs w1 t1" by blast
    from x have "length t1 < length s" by (cases x) simp_all
    with 1 have "filter (\<lambda>c. \<not> isSpace c) (concat (matchAll rs w1 t1))
                        = filter (\<lambda>c. \<not> isSpace c) t1" by simp
    then show ?thesis using x(1) m by simp
  qed
qed

lemma tokenizer_nonspace: "Plus CNonSpace \<in> set tokenizerRegex"
  by (simp add: tokenizerRegex_def)

lemma tokenizer_minLen_all: "\<forall>r\<in>set tokenizerRegex. 1 \<le> minLen r"
  using tokenizer_minLen by (simp add: list_all_iff)

lemma textChar_nonspace: "filter textChar xs = filter textChar (filter (\<lambda>c. \<not> isSpace c) xs)"
  by (induction xs) (auto simp: textChar_def)

lemma tokenize_textChars:
  "filter textChar (concat (tokenize input)) = filter textChar (toUpperCase input)"
proof -
  let ?u = "toUpperCase (trim (replaceAll cleanRegex '' '' False input))"
  have "filter textChar (concat (tokenize input))
          = filter textChar (filter (\<lambda>c. \<not> isSpace c) (concat (matchAll tokenizerRegex False ?u)))"
    unfolding tokenize_def by (rule textChar_nonspace)
  also have "\<dots> = filter textChar (filter (\<lambda>c. \<not> isSpace c) ?u)"
    by (simp only: matchAll_nonspace [OF tokenizer_nonspace tokenizer_minLen_all])
  also have "\<dots> = filter textChar ?u" by (rule textChar_nonspace [symmetric])
  also have "\<dots> = toUpperCase (filter textChar input)"
    by (simp only: toUpperCase_textChars trim_textChars clean_textChars)
  finally show ?thesis by (simp only: toUpperCase_textChars)
qed

lemma finalCount_no_digit:
  "\<not> beginsWithDigit (tokenAt ts 0) \<Longrightarrow> finalCount ts = 0"
  by (simp add: finalCount_def countHousenumberTokens_def reclassify_def)

text \<open>
  Claim C9: for every input string the parser returns a record and raises nothing
  (every loop of the model is a total function, and the one read that can fail in the
  source, \<open>tokens[0]\<close>, never does). The tokens are the tokens that are kept followed by
  the tokens that are removed, and every removed token is borough or postcode evidence:
  it begins with five digits or has a borough code. The first \<open>finalCount\<close> kept tokens
  joined are the housenumber and all the other kept tokens joined are the street; so
  when the first token does not begin with a digit and no token is such evidence, there
  is no housenumber and the street is all the tokens joined. Some token is kept when
  there is one. The tokens hold, in order and in upper case, every character of the
  input that is not white space, a comma or a full stop. On the empty string the record
  has no key.
\<close>

theorem parser_total:
  "(\<exists>r removed.
       parseNycAddress input = Inr r
     \<and> tokenize input = keptTokens (tokenize input) @ removed
     \<and> (\<forall>t\<in>set removed. beginsWithFiveDigits t \<or> tokenBoro t \<noteq> 9)
     \<and> housenumber r =
         optText (joinSp (take (finalCount (tokenize input)) (keptTokens (tokenize input))))
     \<and> street r =
         optText (joinSp (drop (finalCount (tokenize input)) (keptTokens (tokenize input))))
     \<and> (\<not> beginsWithDigit (tokenAt (tokenize input) 0)
          \<and> (\<forall>t\<in>set (tokenize input). \<not> beginsWithFiveDigits t \<and> tokenBoro t = 9) \<longrightarrow>
        housenumber r = None \<and> street r = optText (joinSp (tokenize input))))
   \<and> (tokenize input \<noteq> [] \<longrightarrow> keptTokens (tokenize input) \<noteq> [])
   \<and> filter textChar (concat (tokenize input)) = filter textChar (toUpperCase input)
   \<and> parseNycAddress [] =
       Inr \<lparr>housenumber = None, street = None, borough = None, postcode = None,
            marble_hill = None\<rparr>"
proof (intro conjI)
  let ?ts = "tokenize input"
  obtain r where r: "parseTokens ?ts = Inr r"
    and h: "housenumber r = optText (joinSp (take (finalCount ?ts) (keptTokens ?ts)))"
    and s: "street r = optText (joinSp (drop (finalCount ?ts) (keptTokens ?ts)))"
    using parseTokens_fields by blast
  obtain removed where k: "?ts = keptTokens ?ts @ removed"
    and e: "\<forall>t\<in>set removed. beginsWithFiveDigits t \<or> tokenBoro t \<noteq> 9"
    using resolved_removed by blast
  have g: "housenumber r = None \<and> street r = optText (joinSp ?ts)"
    if a: "\<not> beginsWithDigit (tokenAt ?ts 0)"
      and b: "\<forall>t\<in>set ?ts. \<not> beginsWithFiveDigits t \<and> tokenBoro t = 9"
  proof -
    have "set removed \<subseteq> set ?ts" by (subst k) simp
    with b e have "removed = []" by (cases removed) auto
    with k have "keptTokens ?ts = ?ts" by simp
    with h s finalCount_no_digit [OF a] show ?thesis by (simp add: optText_def)
  qed
  from r h s k e g
  show "\<exists>r removed.
       parseNycAddress input = Inr r
     \<and> tokenize input = keptTokens (tokenize input) @ removed
     \<and> (\<forall>t\<in>set removed. beginsWithFiveDigits t \<or> tokenBoro t \<noteq> 9)
     \<and> housenumber r =
         optText (joinSp (take (finalCount (tokenize input)) (keptTokens (tokenize input))))
     \<and> street r =
         optText (joinSp (drop (finalCount (tokenize input)) (keptTokens (tokenize input))))
     \<and> (\<not> beginsWithDigit (tokenAt (tokenize input) 0)
          \<and> (\<forall>t\<in>set (tokenize input). \<not> beginsWithFiveDigits t \<and> tokenBoro t = 9) \<longrightarrow>
        housenumber r = None \<and> street r = optText (joinSp (tokenize input)))"
    unfolding parseNycAddress_def by blast
  show "tokenize input \<noteq> [] \<longrightarrow> keptTokens (tokenize input) \<noteq> []"
    using keptTokens_nonempty by blast
  show "filter textChar (concat (tokenize input)) = filter textChar (toUpperCase input)"
    by (rule tokenize_textChars)
  show "parseNycAddress [] =
       Inr \<lparr>housenumber = None, street = None, borough = None, postcode = None,
            marble_hill = None\<rparr>"
    by code_simp
qed

theorem parser_total_witness:
  "tokenize ''what, ever.. 12 bronx'' = [''WHAT'', ''EVER'', ''12'', ''BRONX'']
   \<and> keptTokens [''WHAT'', ''EVER'', ''12'', ''BRONX''] = [''WHAT'', ''EVER'', ''12'']
   \<and> tokenBoro ''BRONX'' \<noteq> 9
   \<and> parseNycAddress ''what, ever.. 12 bronx'' =
       Inr \<lparr>housenumber = None, street = Some ''WHAT EVER 12'', borough = Some 2,
            postcode = None, marble_hill = None\<rparr>
   \<and> tokenize ''no such (place)'' = [''NO'', ''SUCH'', ''(PLACE)'']
   \<and> \<not> beginsWithDigit (tokenAt [''NO'', ''SUCH'', ''(PLACE)''] 0)
   \<and> \<not> beginsWithFiveDigits ''NO'' \<and> tokenBoro ''NO'' = 9
   \<and> \<not> beginsWithFiveDigits ''SUCH'' \<and> tokenBoro ''SUCH'' = 9
   \<and> \<not> beginsWithFiveDigits ''(PLACE)'' \<and> tokenBoro ''(PLACE)'' = 9
   \<and> parseNycAddress ''no such (place)'' =
       Inr \<lparr>housenumber = None, street = Some ''NO SUCH (PLACE)'', borough = None,
            postcode = None, marble_hill = None\<rparr>"
proof -
  have t: "tokenize ''what, ever.. 12 bronx'' = [''WHAT'', ''EVER'', ''12'', ''BRONX'']"
    by code_simp
  have k: "keptTokens [''WHAT'', ''EVER'', ''12'', ''BRONX''] = [''WHAT'', ''EVER'', ''12'']"
    by code_simp
  have b: "tokenBoro ''BRONX'' \<noteq> 9" by code_simp
  have p: "parseTokens [''WHAT'', ''EVER'', ''12'', ''BRONX''] =
       Inr \<lparr>housenumber = None, street = Some ''WHAT EVER 12'', borough = Some 2,
            postcode = None, marble_hill = None\<rparr>" by code_simp
  have t': "tokenize ''no such (place)'' = [''NO'', ''SUCH'', ''(PLACE)'']" by code_simp
  have d: "\<not> beginsWithDigit (tokenAt [''NO'', ''SUCH'', ''(PLACE)''] 0)" by code_simp
  have g: "\<forall>t\<in>set [''NO'', ''SUCH'', ''(PLACE)'']. \<not> beginsWithFiveDigits t \<and> tokenBoro t = 9"
    by code_simp
  have p': "parseTokens [''NO'', ''SUCH'', ''(PLACE)''] =
       Inr \<lparr>housenumber = None, street = Some ''NO SUCH (PLACE)'', borough = None,
            postcode = None, marble_hill = None\<rparr>" by code_simp
  from parser_total [of "''what, ever.. 12 bronx''"] parser_total [of "''no such (place)''"]
    t k b p t' d g p'
  show ?thesis unfolding parseNycAddress_def by simp
qed


section \<open>Matching a text that is followed by more text\<close>

lemma rmatch_shorter:
  "(w', c', t') \<in> set (rmatch r (w, c, t)) \<Longrightarrow> length t' \<le> length t"
  using rmatch_sound [of w' c' t' r w c t "[]"] by auto

lemma classRun_last:
  "\<exists>front. classRun k w s = front @ [(w, s)] \<and> (\<forall>x\<in>set front. length (snd x) < length s)"
proof (cases s)
  case Nil
  then show ?thesis by simp
next
  case (Cons ch s')
  show ?thesis
  proof (cases "inClass k ch")
    case True
    have "\<forall>x\<in>set (classRun k (isWordChar ch) s'). length (snd x) < length s"
    proof
      fix x assume "x \<in> set (classRun k (isWordChar ch) s')"
      then have "(fst x, snd x) \<in> set (classRun k (isWordChar ch) s')" by simp
      from classRun_sound [OF this] obtain y where "s' = y @ snd x" by blast
      then have "length (snd x) \<le> length s'" by (metis length_append le_add2)
      then show "length (snd x) < length s" using Cons by simp
    qed
    then show ?thesis using True Cons by auto
  next
    case False
    then show ?thesis using Cons by auto
  qed
qed

lemma classRun_truncate:
  "map (\<lambda>x. (fst x, snd x @ e)) (classRun k w s)
     = filter (\<lambda>x. length e \<le> length (snd x)) (classRun k w (s @ e))"
proof (induction s arbitrary: w)
  case Nil
  from classRun_last [of k w e] obtain front where f: "classRun k w e = front @ [(w, e)]"
    and sh: "\<forall>x\<in>set front. length (snd x) < length e" by blast
  have "filter (\<lambda>x. length e \<le> length (snd x)) front = []"
    using sh by (auto simp: filter_empty_conv)
  then show ?case by (simp add: f)
next
  case (Cons ch s)
  show ?case
  proof (cases "inClass k ch")
    case True
    then show ?thesis using Cons.IH [of "isWordChar ch"] by simp
  next
    case False
    then show ?thesis by simp
  qed
qed

lemma concat_filter_skip:
  "(\<And>x. x \<in> set xs \<Longrightarrow> \<not> P x \<Longrightarrow> g x = []) \<Longrightarrow>
   concat (map g (filter P xs)) = concat (map g xs)"
  by (induction xs) auto

lemma stripPrefix_append:
  "stripPrefix cs s = Some t \<Longrightarrow> stripPrefix cs (s @ e) = Some (t @ e)"
  by (induction cs s rule: stripPrefix.induct) (auto split: if_splits)

lemma stripPrefix_beyond:
  "stripPrefix cs s = None \<Longrightarrow> stripPrefix cs (s @ e) = Some t \<Longrightarrow> length t < length e"
proof (induction cs s rule: stripPrefix.induct)
  case (1 s)
  then show ?case by simp
next
  case (2 c cs)
  from stripPrefix_Some [OF 2(2)] have "length e = length (c # cs) + length t" by simp
  then show ?case by simp
next
  case (3 c cs d s)
  then show ?case by (auto split: if_splits)
qed

text \<open>
  Matching a text that is followed by more text \<open>e\<close>, which does not begin with a word
  character: the matches that end before \<open>e\<close> are the matches of the text alone, in the
  same order.
\<close>

lemma rmatch_truncate:
  assumes e: "e = [] \<or> \<not> isWordChar (hd e)"
  shows "plain r \<Longrightarrow>
     map (\<lambda>x. (fst x, fst (snd x), snd (snd x) @ e)) (rmatch r (w, c, s))
       = filter (\<lambda>x. length e \<le> length (snd (snd x))) (rmatch r (w, c, s @ e))"
proof (induction r arbitrary: w c s)
  case (Lit cs)
  show ?case
  proof (cases "stripPrefix cs s")
    case None
    show ?thesis
    proof (cases "stripPrefix cs (s @ e)")
      case n: None
      then show ?thesis using None by simp
    next
      case (Some t)
      from stripPrefix_beyond [OF None Some] show ?thesis using None Some by simp
    qed
  next
    case (Some t)
    from stripPrefix_append [OF Some, of e] show ?thesis using Some by simp
  qed
next
  case (Cls k)
  show ?case
  proof (cases s)
    case Nil
    then show ?thesis by (cases e) auto
  next
    case (Cons ch s')
    then show ?thesis by auto
  qed
next
  case (Seq a b)
  let ?A = "\<lambda>x. (fst x, fst (snd x), snd (snd x) @ e)"
  let ?F = "\<lambda>x. length e \<le> length (snd (snd x))"
  from Seq.prems have pa: "plain a" and pb: "plain b" by simp_all
  have b: "map ?A (rmatch b x) = filter ?F (rmatch b (?A x))" for x
    using Seq.IH(2) [OF pb, of "fst x" "fst (snd x)" "snd (snd x)"] by simp
  have skip: "filter ?F (rmatch b x) = []" if "\<not> ?F x" for x
  proof -
    have "\<not> ?F y" if y: "y \<in> set (rmatch b x)" for y
    proof -
      from y have "(fst y, fst (snd y), snd (snd y)) \<in> set (rmatch b (fst x, fst (snd x), snd (snd x)))"
        by simp
      from rmatch_shorter [OF this] \<open>\<not> ?F x\<close> show ?thesis by simp
    qed
    then show ?thesis by (auto simp: filter_empty_conv)
  qed
  have "map ?A (rmatch (Seq a b) (w, c, s))
          = concat (map (\<lambda>x. map ?A (rmatch b x)) (rmatch a (w, c, s)))"
    by (simp add: map_concat comp_def)
  also have "\<dots> = concat (map (\<lambda>x. filter ?F (rmatch b (?A x))) (rmatch a (w, c, s)))"
    by (simp only: b)
  also have "\<dots> = concat (map (\<lambda>x. filter ?F (rmatch b x)) (map ?A (rmatch a (w, c, s))))"
    by (simp add: comp_def)
  also have "\<dots> = concat (map (\<lambda>x. filter ?F (rmatch b x)) (filter ?F (rmatch a (w, c, s @ e))))"
    by (simp only: Seq.IH(1) [OF pa])
  also have "\<dots> = concat (map (\<lambda>x. filter ?F (rmatch b x)) (rmatch a (w, c, s @ e)))"
    by (rule concat_filter_skip) (rule skip)
  also have "\<dots> = filter ?F (rmatch (Seq a b) (w, c, s @ e))"
    by (simp add: filter_concat comp_def)
  finally show ?case .
next
  case (Opt a)
  then have "plain a" by simp
  from Opt.IH [OF this, of w c s] show ?case by simp
next
  case (Star k)
  have "map (\<lambda>x. (fst x, fst (snd x), snd (snd x) @ e)) (rmatch (Star k) (w, c, s))
      = map (\<lambda>x. (fst x, c, snd x)) (map (\<lambda>x. (fst x, snd x @ e)) (classRun k w s))"
    by (simp add: comp_def case_prod_beta)
  also have "\<dots> = map (\<lambda>x. (fst x, c, snd x))
                      (filter (\<lambda>x. length e \<le> length (snd x)) (classRun k w (s @ e)))"
    by (simp only: classRun_truncate)
  also have "\<dots> = filter (\<lambda>x. length e \<le> length (snd (snd x))) (rmatch (Star k) (w, c, s @ e))"
    by (simp add: filter_map comp_def case_prod_beta)
  finally show ?case .
next
  case (Plus k)
  show ?case
  proof (cases s)
    case Nil
    show ?thesis
    proof (cases e)
      case n: Nil
      then show ?thesis using Nil by simp
    next
      case (Cons ch e')
      have "\<forall>x\<in>set (classRun k (isWordChar ch) e'). length (snd x) < length e"
      proof
        fix x assume "x \<in> set (classRun k (isWordChar ch) e')"
        then have "(fst x, snd x) \<in> set (classRun k (isWordChar ch) e')" by simp
        from classRun_sound [OF this] obtain y where "e' = y @ snd x" by blast
        then have "length (snd x) \<le> length e'" by (metis length_append le_add2)
        then show "length (snd x) < length e" using Cons by simp
      qed
      then have "filter (\<lambda>x. length e \<le> length (snd x)) (classRun k (isWordChar ch) e') = []"
        by (auto simp: filter_empty_conv)
      then show ?thesis using Nil Cons
        by (simp add: filter_map comp_def case_prod_beta)
    qed
  next
    case (Cons ch s')
    show ?thesis
    proof (cases "inClass k ch")
      case True
      have "map (\<lambda>x. (fst x, fst (snd x), snd (snd x) @ e)) (rmatch (Plus k) (w, c, s))
        = map (\<lambda>x. (fst x, c, snd x)) (map (\<lambda>x. (fst x, snd x @ e)) (classRun k (isWordChar ch) s'))"
        using Cons True by (simp add: comp_def case_prod_beta)
      also have "\<dots> = map (\<lambda>x. (fst x, c, snd x))
                      (filter (\<lambda>x. length e \<le> length (snd x)) (classRun k (isWordChar ch) (s' @ e)))"
        by (simp only: classRun_truncate)
      also have "\<dots> = filter (\<lambda>x. length e \<le> length (snd (snd x))) (rmatch (Plus k) (w, c, s @ e))"
        using Cons True by (simp add: filter_map comp_def case_prod_beta)
      finally show ?thesis .
    next
      case False
      then show ?thesis using Cons by simp
    qed
  qed
next
  case WordB
  show ?case
  proof (cases s)
    case Nil
    then show ?thesis using e by (cases e) auto
  next
    case (Cons ch s')
    then show ?thesis by simp
  qed
next
  case Eos
  then show ?case by simp
next
  case (Cap a)
  then show ?case by simp
qed

lemma firstMatch_truncate_Some:
  assumes e: "e = [] \<or> \<not> isWordChar (hd e)" and pl: "\<forall>r\<in>set rs. plain r"
  shows "firstMatch rs (w, c, s @ e) = Some (w', c', t @ e) \<Longrightarrow>
         firstMatch rs (w, c, s) = Some (w', c', t)"
  using pl
proof (induction rs)
  case Nil
  then show ?case by simp
next
  case (Cons r rs)
  then have pr: "plain r" by simp
  note tr = rmatch_truncate [OF e pr, of w c s]
  show ?case
  proof (cases "rmatch r (w, c, s @ e)")
    case Nil
    with tr have "rmatch r (w, c, s) = []" by simp
    with Nil Cons show ?thesis by simp
  next
    case (Cons x xs)
    with Cons.prems(1) have x: "x = (w', c', t @ e)" by simp
    with tr Cons obtain y ys where y: "rmatch r (w, c, s) = y # ys"
      and "(fst y, fst (snd y), snd (snd y) @ e) = (w', c', t @ e)"
      by (cases "rmatch r (w, c, s)") auto
    then have "y = (w', c', t)" by (cases y) auto
    with y show ?thesis by simp
  qed
qed

lemma firstMatch_truncate_None:
  assumes e: "e = [] \<or> \<not> isWordChar (hd e)" and pl: "\<forall>r\<in>set rs. plain r"
  shows "firstMatch rs (w, c, s @ e) = None \<Longrightarrow> firstMatch rs (w, c, s) = None"
  using pl
proof (induction rs)
  case Nil
  then show ?case by simp
next
  case (Cons r rs)
  then have pr: "plain r" by simp
  note tr = rmatch_truncate [OF e pr, of w c s]
  from Cons.prems(1) have n: "rmatch r (w, c, s @ e) = []" by (auto split: list.splits)
  with tr have "rmatch r (w, c, s) = []" by simp
  with n Cons show ?case by simp
qed

lemma joinSp_Cons: "joinSp (t # ts) = (if ts = [] then t else t @ CHR '' '' # joinSp ts)"
  by (cases ts) simp_all

lemma joinSp_append:
  "xs \<noteq> [] \<Longrightarrow> ys \<noteq> [] \<Longrightarrow> joinSp (xs @ ys) = joinSp xs @ CHR '' '' # joinSp ys"
  by (induction xs) (auto simp: joinSp_Cons)

lemma joinSp_take_prefix:
  assumes "take j xs \<noteq> []"
  shows "\<exists>e. joinSp xs = joinSp (take j xs) @ e \<and> (e = [] \<or> hd e = CHR '' '')"
proof (cases "drop j xs = []")
  case True
  then have "take j xs = xs" by simp
  then show ?thesis by simp
next
  case False
  with assms
  have "joinSp (take j xs @ drop j xs) = joinSp (take j xs) @ CHR '' '' # joinSp (drop j xs)"
    by (intro joinSp_append) simp_all
  then show ?thesis by simp
qed

lemma matchAll_empty:
  assumes ml: "\<forall>r\<in>set rs. 1 \<le> minLen r"
  shows "matchAll rs w [] = []"
proof -
  have "firstMatch rs (w, None, []) = None"
  proof (rule ccontr)
    assume "firstMatch rs (w, None, []) \<noteq> None"
    then obtain w1 c1 t1 where "firstMatch rs (w, None, []) = Some (w1, c1, t1)"
      by (metis not_Some_eq prod_cases3)
    from firstMatch_consumes [OF ml this] show False by auto
  qed
  then show ?thesis by (subst matchAll.simps) simp
qed

lemma singleSpaced_append: "singleSpaced (a @ b) \<Longrightarrow> singleSpaced a \<and> singleSpaced b"
  by (simp add: singleSpaced_def successively_append_iff)

lemma singleSpaced_double: "\<not> singleSpaced (a @ CHR '' '' # CHR '' '' # b)"
  by (simp add: singleSpaced_def successively_append_iff)

lemma firstMatch_nonspace:
  assumes ns: "Plus CNonSpace \<in> set rs" and "\<not> isSpace ch"
  shows "firstMatch rs (w, c, ch # s) \<noteq> None"
  using firstMatch_None [OF _ ns, of "(w, c, ch # s)"] nonspace_matches [OF assms(2), of w c s]
  by blast

text \<open>
  The tokens of a text that is its tokens joined by single spaces: the first \<open>k\<close> tokens
  joined are matched to the first \<open>k\<close> tokens.
\<close>

lemma matchAll_take:
  assumes ns: "Plus CNonSpace \<in> set rs" and ml: "\<forall>r\<in>set rs. 1 \<le> minLen r"
    and pl: "\<forall>r\<in>set rs. plain r"
  shows "matchAll rs w (joinSp ts) = ts \<Longrightarrow> singleSpaced (joinSp ts) \<Longrightarrow>
         \<forall>ch\<in>set (joinSp ts). isSpace ch \<longrightarrow> ch = CHR '' '' \<Longrightarrow>
         joinSp ts \<noteq> [] \<longrightarrow> hd (joinSp ts) \<noteq> CHR '' '' \<and> last (joinSp ts) \<noteq> CHR '' '' \<Longrightarrow>
         matchAll rs w (joinSp (take k ts)) = take k ts"
proof (induction ts arbitrary: w k)
  case Nil
  then show ?case by simp
next
  case (Cons t rest)
  note m = Cons.prems(1) and ss = Cons.prems(2) and sp = Cons.prems(3) and ends = Cons.prems(4)
  have sc: "\<not> isWordChar (CHR '' '')" by (simp add: isWordChar_def)
  show ?case
  proof (cases k)
    case 0
    then show ?thesis by (simp add: matchAll_empty [OF ml])
  next
    case (Suc j)
    show ?thesis
    proof (cases "rest = []")
      case True
      then show ?thesis using m Suc by simp
    next
      case False
      let ?tx = "joinSp (t # rest)"
      let ?e = "CHR '' '' # joinSp rest"
      have jt: "?tx = t @ ?e" using False by (simp add: joinSp_Cons)
      then have tne: "?tx \<noteq> []" by simp
      with ends have hdt: "hd ?tx \<noteq> CHR '' ''" and lst: "last ?tx \<noteq> CHR '' ''" by simp_all
      obtain ch s0 where chs: "?tx = ch # s0" using tne by (cases ?tx) auto
      with hdt sp have "\<not> isSpace ch" by (metis list.sel(1) list.set_intros(1))
      from firstMatch_nonspace [OF ns this, of w None s0] chs
      obtain w1 c1 t1 where fm: "firstMatch rs (w, None, ?tx) = Some (w1, c1, t1)"
        by (metis not_Some_eq prod_cases3)
      from matchAll_Some [OF ml fm] obtain x where x: "?tx = x @ t1" "x \<noteq> []"
        and mx: "matchAll rs w ?tx = x # matchAll rs w1 t1" by blast
      from mx m have xt: "x = t" and mr1: "matchAll rs w1 t1 = rest" by simp_all
      from x(1) jt xt have t1: "t1 = ?e" by simp
      have fn: "firstMatch rs (w1, None, ?e) = None"
      proof (rule ccontr)
        assume "firstMatch rs (w1, None, ?e) \<noteq> None"
        then obtain w2 c2 t2 where "firstMatch rs (w1, None, ?e) = Some (w2, c2, t2)"
          by (metis not_Some_eq prod_cases3)
        from matchAll_Some [OF ml this] obtain x2 where x2: "?e = x2 @ t2" "x2 \<noteq> []"
          and "matchAll rs w1 ?e = x2 # matchAll rs w2 t2" by blast
        with mr1 t1 obtain rest' where r: "rest = x2 # rest'" by auto
        from x2 obtain x2' where "x2 = CHR '' '' # x2'" by (cases x2) auto
        with r have "joinSp rest = CHR '' '' # (if rest' = [] then x2' else x2' @ CHR '' '' # joinSp rest')"
          by (simp add: joinSp_Cons)
        then obtain z where "joinSp rest = CHR '' '' # z" by blast
        with jt have "?tx = t @ CHR '' '' # CHR '' '' # z" by simp
        with ss singleSpaced_double show False by metis
      qed
      from matchAll_None [OF ns fn] sc
      have mr: "matchAll rs False (joinSp rest) = rest" using mr1 t1 by auto
      have ss': "singleSpaced (joinSp rest)"
      proof -
        from ss jt have "singleSpaced ((t @ '' '') @ joinSp rest)" by simp
        from singleSpaced_append [OF this] show ?thesis by simp
      qed
      have sp': "\<forall>ch\<in>set (joinSp rest). isSpace ch \<longrightarrow> ch = CHR '' ''"
        using sp jt by simp
      have jne: "joinSp rest \<noteq> []"
        using lst jt by auto
      have ends': "joinSp rest \<noteq> [] \<longrightarrow> hd (joinSp rest) \<noteq> CHR '' '' \<and> last (joinSp rest) \<noteq> CHR '' ''"
      proof (intro impI conjI)
        show "hd (joinSp rest) \<noteq> CHR '' ''"
        proof
          assume "hd (joinSp rest) = CHR '' ''"
          with jne obtain z where "joinSp rest = CHR '' '' # z" by (cases "joinSp rest") auto
          with jt have "?tx = t @ CHR '' '' # CHR '' '' # z" by simp
          with ss singleSpaced_double show False by metis
        qed
        show "last (joinSp rest) \<noteq> CHR '' ''" using lst jt jne by simp
      qed
      from Cons.IH [OF mr ss' sp' ends']
      have ih: "matchAll rs False (joinSp (take j rest)) = take j rest" .
      show ?thesis
      proof (cases "take j rest = []")
        case True
        have e: "?e = [] \<or> \<not> isWordChar (hd ?e)" using sc by simp
        from fm have "firstMatch rs (w, None, t @ ?e) = Some (w1, c1, [] @ ?e)"
          by (simp add: jt t1)
        from firstMatch_truncate_Some [OF e pl this]
        have "firstMatch rs (w, None, t) = Some (w1, c1, [])" .
        from matchAll_Some [OF ml this] have "matchAll rs w t = [t]"
          by (simp add: matchAll_empty [OF ml])
        then show ?thesis unfolding Suc take_Suc_Cons True by simp
      next
        case False
        let ?K = "joinSp (take j rest)"
        from joinSp_take_prefix [OF False] obtain e where e: "joinSp rest = ?K @ e"
          and eh: "e = [] \<or> hd e = CHR '' ''" by blast
        from eh sc have ec: "e = [] \<or> \<not> isWordChar (hd e)" by auto
        have tk: "joinSp (take k (t # rest)) = t @ CHR '' '' # ?K"
          using False Suc by (simp add: joinSp_Cons)
        from fm have "firstMatch rs (w, None, (t @ CHR '' '' # ?K) @ e)
                        = Some (w1, c1, (CHR '' '' # ?K) @ e)"
          by (simp add: jt t1 e)
        from firstMatch_truncate_Some [OF ec pl this]
        have "firstMatch rs (w, None, t @ CHR '' '' # ?K) = Some (w1, c1, CHR '' '' # ?K)" .
        from matchAll_Some [OF ml this]
        have a: "matchAll rs w (t @ CHR '' '' # ?K) = t # matchAll rs w1 (CHR '' '' # ?K)"
          by auto
        from fn have "firstMatch rs (w1, None, (CHR '' '' # ?K) @ e) = None"
          by (simp add: e)
        from firstMatch_truncate_None [OF ec pl this]
        have "firstMatch rs (w1, None, CHR '' '' # ?K) = None" .
        from matchAll_None [OF ns this] sc
        have "matchAll rs w1 (CHR '' '' # ?K) = matchAll rs False ?K" by auto
        with a ih tk show ?thesis using Suc by simp
      qed
    qed
  qed
qed


section \<open>The shape of the cleaned text\<close>

lemma isSep_space: "isSep (CHR '' '')"
  by (simp add: isSep_def isSpace_def)

lemma isSep_dot: "\<not> isSep (CHR ''.'')"
  by (simp add: isSep_def isSpace_def)

lemma cleanShape_Nil: "cleanShape []"
  by (simp add: cleanShape_def)

lemma cleanShape_space_Cons: "cleanShape x \<Longrightarrow> cleanShape (CHR '' '' # x)"
  by (auto simp: cleanShape_def successively_Cons)

lemma cleanShape_Cons_plain:
  "cleanShape x \<Longrightarrow> \<not> isSep a \<Longrightarrow> a \<noteq> CHR ''.'' \<Longrightarrow> cleanShape (a # x)"
  by (auto simp: cleanShape_def successively_Cons)

lemma cleanShape_Cons_dot:
  "cleanShape x \<Longrightarrow> x \<noteq> [] \<Longrightarrow> hd x \<noteq> CHR '' '' \<Longrightarrow> cleanShape (CHR ''.'' # x)"
  by (auto simp: cleanShape_def successively_Cons isSep_dot)

lemma cleanShape_snoc_space:
  "cleanShape x \<Longrightarrow> cleanShape (x @ '' '')"
  by (auto simp: cleanShape_def successively_append_iff)

lemma cleanShape_prefix:
  assumes "cleanShape (x @ CHR '' '' # y)"
  shows "cleanShape x"
proof -
  from assms have s: "successively (\<lambda>a b. \<not> (a = CHR ''.'' \<and> b = CHR '' '')) (x @ CHR '' '' # y)"
    and c: "\<forall>c\<in>set x. isSep c \<longrightarrow> c = CHR '' ''"
    by (auto simp: cleanShape_def)
  from s have "successively (\<lambda>a b. \<not> (a = CHR ''.'' \<and> b = CHR '' '')) x"
    and "x \<noteq> [] \<longrightarrow> last x \<noteq> CHR ''.''"
    by (auto simp: successively_append_iff)
  with c show ?thesis by (simp add: cleanShape_def)
qed

text \<open>The shape of a cleaned text.\<close>

lemma replaceAll_cleanShape: "cleanShape (replaceAll cleanRegex '' '' w s)"
proof (induction s arbitrary: w rule: length_induct)
  case (1 s)
  obtain w' where u: "replaceAll cleanRegex '' '' w s =
     (case dropWhile isDot s of
        [] \<Rightarrow> if s = [] then [] else '' ''
      | ch # d \<Rightarrow>
          if isSep ch then '' '' @ replaceAll cleanRegex '' '' w' (dropWhile isSep d)
          else hd s # replaceAll cleanRegex '' '' w' (tl s))"
    using replaceAll_clean by blast
  show ?case
  proof (cases "dropWhile isDot s")
    case Nil
    have "cleanShape '' ''" using cleanShape_space_Cons [OF cleanShape_Nil] .
    then show ?thesis using u unfolding Nil by (simp add: cleanShape_Nil)
  next
    case (Cons ch d)
    then have ne: "s \<noteq> []" by auto
    have nd: "\<not> isDot ch" using Cons by (metis hd_dropWhile list.sel(1) list.distinct(1))
    show ?thesis
    proof (cases "isSep ch")
      case True
      have "length (dropWhile isSep d) < length s"
      proof -
        have "length (dropWhile isSep d) \<le> length d" by (rule length_dropWhile_le)
        also have "\<dots> < length (dropWhile isDot s)" by (simp add: Cons)
        also have "\<dots> \<le> length s" by (rule length_dropWhile_le)
        finally show ?thesis .
      qed
      with 1 have "cleanShape (replaceAll cleanRegex '' '' w' (dropWhile isSep d))" by blast
      from cleanShape_space_Cons [OF this] show ?thesis
        using u True unfolding Cons by simp
    next
      case False
      obtain a s' where s: "s = a # s'" using ne by (cases s) auto
      have o: "replaceAll cleanRegex '' '' w s = a # replaceAll cleanRegex '' '' w' s'"
        using u False s unfolding Cons by simp
      have ih: "cleanShape (replaceAll cleanRegex '' '' w' s')" using 1 s by simp
      show ?thesis
      proof (cases "a = CHR ''.''")
        case dot: True
        then have d': "dropWhile isDot s' = ch # d" using Cons s by (simp add: isDot_def)
        then have ne': "s' \<noteq> []" by auto
        obtain w2 where "replaceAll cleanRegex '' '' w' s' =
           (case dropWhile isDot s' of
              [] \<Rightarrow> if s' = [] then [] else '' ''
            | ch # d \<Rightarrow>
                if isSep ch then '' '' @ replaceAll cleanRegex '' '' w2 (dropWhile isSep d)
                else hd s' # replaceAll cleanRegex '' '' w2 (tl s'))"
          using replaceAll_clean by blast
        then have o': "replaceAll cleanRegex '' '' w' s' = hd s' # replaceAll cleanRegex '' '' w2 (tl s')"
          using False unfolding d' by simp
        have "hd s' \<noteq> CHR '' ''"
        proof (cases "isDot (hd s')")
          case True
          then show ?thesis by (auto simp: isDot_def)
        next
          case nd': False
          with ne' have "dropWhile isDot s' = s'" by (cases s') auto
          with d' have "hd s' = ch" by simp
          with False isSep_space show ?thesis by auto
        qed
        with o' have "replaceAll cleanRegex '' '' w' s' \<noteq> []"
          and "hd (replaceAll cleanRegex '' '' w' s') \<noteq> CHR '' ''" by simp_all
        from cleanShape_Cons_dot [OF ih this] show ?thesis unfolding o dot .
      next
        case nodot: False
        then have "dropWhile isDot s = s" using s by (simp add: isDot_def)
        with Cons s have "a = ch" by simp
        with False nodot cleanShape_Cons_plain [OF ih] show ?thesis unfolding o by simp
      qed
    qed
  qed
qed

lemma trim_decomp:
  "\<exists>pre post. x = pre @ trim x @ post \<and> (\<forall>c\<in>set pre. isSpace c) \<and> (\<forall>c\<in>set post. isSpace c)"
proof -
  let ?d = "dropWhile isSpace x"
  have t: "trim x = rev (dropWhile isSpace (rev ?d))" by (simp add: trim_def)
  have "?d = rev (rev ?d)" by simp
  also have "\<dots> = rev (takeWhile isSpace (rev ?d) @ dropWhile isSpace (rev ?d))"
    by (simp only: takeWhile_dropWhile_id)
  also have "\<dots> = rev (dropWhile isSpace (rev ?d)) @ rev (takeWhile isSpace (rev ?d))"
    by (rule rev_append)
  finally have d: "?d = trim x @ rev (takeWhile isSpace (rev ?d))"
    by (simp only: t)
  have "x = takeWhile isSpace x @ ?d" by simp
  with d have "x = takeWhile isSpace x @ trim x @ rev (takeWhile isSpace (rev ?d))" by simp
  moreover have "\<forall>c\<in>set (takeWhile isSpace x). isSpace c" by (auto dest: set_takeWhileD)
  moreover have "\<forall>c\<in>set (rev (takeWhile isSpace (rev ?d))). isSpace c"
    by (auto dest: set_takeWhileD)
  ultimately show ?thesis by blast
qed

lemma trim_cleanShape:
  assumes "cleanShape x"
  shows "cleanShape (trim x)"
proof -
  let ?P = "\<lambda>a b. \<not> (a = CHR ''.'' \<and> b = CHR '' '')"
  define m where "m = trim x"
  from trim_decomp [of x] obtain pre post where x: "x = pre @ m @ post"
    and post: "\<forall>c\<in>set post. isSpace c" unfolding m_def by blast
  from assms have c: "\<forall>c\<in>set x. isSep c \<longrightarrow> c = CHR '' ''" and s: "successively ?P x"
    and l: "x \<noteq> [] \<longrightarrow> last x \<noteq> CHR ''.''" by (simp_all add: cleanShape_def)
  have c': "\<forall>c\<in>set m. isSep c \<longrightarrow> c = CHR '' ''"
    using c unfolding x by simp
  from s have s3: "successively ?P (m @ post)"
    unfolding x by (simp add: successively_append_iff)
  then have s': "successively ?P m" by (simp add: successively_append_iff)
  have l': "last m \<noteq> CHR ''.''" if ne: "m \<noteq> []"
  proof (cases post)
    case Nil
    with x have "last x = last m" using ne by simp
    moreover have "x \<noteq> []" using ne x by auto
    ultimately show ?thesis using l by simp
  next
    case (Cons p post')
    with post have "isSpace p" by simp
    moreover have "p \<in> set x" unfolding x by (simp add: Cons)
    ultimately have "p = CHR '' ''" using c by (auto simp: isSep_def)
    with s3 ne Cons show ?thesis by (auto simp: successively_append_iff)
  qed
  from c' s' l' show ?thesis unfolding m_def [symmetric] by (simp add: cleanShape_def)
qed

lemma upperChar_other:
  assumes "c \<notin> set ''ABCDEFGHIJKLMNOPQRSTUVWXYZ''" and "c \<notin> set ''abcdefghijklmnopqrstuvwxyz''"
  shows "(upperChar a = c) = (a = c)"
proof (cases "map_of (zip ''abcdefghijklmnopqrstuvwxyz'' ''ABCDEFGHIJKLMNOPQRSTUVWXYZ'') a")
  case None
  then show ?thesis by (simp add: upperChar_def)
next
  case (Some u)
  from map_of_zip_mem [OF Some] assms have "u \<noteq> c" and "a \<noteq> c" by auto
  then show ?thesis using Some by (simp add: upperChar_def)
qed

lemma upperChar_marks:
  "(upperChar a = CHR '' '') = (a = CHR '' '')"
  "(upperChar a = CHR ''.'') = (a = CHR ''.'')"
  "(upperChar a = CHR '','') = (a = CHR '','')"
  by (rule upperChar_other; simp)+

lemma isSep_upperChar: "isSep (upperChar c) = isSep c"
  by (simp add: isSep_def isSpace_upperChar upperChar_marks)

lemma toUpperCase_cleanShape:
  assumes "cleanShape x"
  shows "cleanShape (toUpperCase x)"
proof -
  let ?P = "\<lambda>a b. \<not> (a = CHR ''.'' \<and> b = CHR '' '')"
  from assms have c: "\<forall>c\<in>set x. isSep c \<longrightarrow> c = CHR '' ''"
    and s: "successively ?P x"
    and l: "x \<noteq> [] \<longrightarrow> last x \<noteq> CHR ''.''" by (simp_all add: cleanShape_def)
  have a: "\<forall>c\<in>set (map upperChar x). isSep c \<longrightarrow> c = CHR '' ''"
  proof
    fix ch assume "ch \<in> set (map upperChar x)"
    then obtain d where d: "d \<in> set x" "ch = upperChar d" by auto
    show "isSep ch \<longrightarrow> ch = CHR '' ''"
    proof
      assume "isSep ch"
      then have "isSep d" by (simp only: d isSep_upperChar)
      with c d(1) have "d = CHR '' ''" by blast
      then show "ch = CHR '' ''" by (simp only: d upperChar_marks)
    qed
  qed
  have "(\<lambda>a b. ?P (upperChar a) (upperChar b)) = ?P"
    by (intro ext) (simp only: upperChar_marks)
  then have b: "successively ?P (map upperChar x)"
    using s by (simp only: successively_map)
  have e: "map upperChar x \<noteq> [] \<longrightarrow> last (map upperChar x) \<noteq> CHR ''.''"
  proof
    assume "map upperChar x \<noteq> []"
    then have ne: "x \<noteq> []" by simp
    then have "last (map upperChar x) = upperChar (last x)" by (rule last_map)
    moreover from l ne have "upperChar (last x) \<noteq> CHR ''.''" by (simp only: upperChar_marks) simp
    ultimately show "last (map upperChar x) \<noteq> CHR ''.''" by simp
  qed
  from a b e show ?thesis unfolding cleanShape_def toUpperCase_def by blast
qed

lemma toUpperCase_fixed:
  assumes "set x \<subseteq> set (toUpperCase y)"
  shows "toUpperCase x = x"
proof -
  have "upperChar c = c" if "c \<in> set x" for c
  proof -
    from that assms obtain d where "c = upperChar d" by (auto simp: toUpperCase_def)
    then show ?thesis using upperChar_range [of d] by (simp add: upperChar_fixes)
  qed
  then show ?thesis by (simp add: toUpperCase_def map_idI)
qed

lemma trim_id: "x \<noteq> [] \<Longrightarrow> \<not> isSpace (hd x) \<Longrightarrow> \<not> isSpace (last x) \<Longrightarrow> trim x = x"
proof -
  assume ne: "x \<noteq> []" and h: "\<not> isSpace (hd x)" and l: "\<not> isSpace (last x)"
  from ne h have d: "dropWhile isSpace x = x" by (cases x) auto
  from ne l have "\<not> isSpace (hd (rev x))" by (simp add: hd_rev)
  with ne have "dropWhile isSpace (rev x) = rev x" by (cases "rev x") auto
  with d show ?thesis by (simp add: trim_def)
qed

lemma trim_space_Cons: "trim (CHR '' '' # x) = trim x"
  by (simp add: trim_def isSpace_def)

lemma trim_snoc_space: "trim (x @ '' '') = trim x"
proof (cases "\<forall>c\<in>set x. isSpace c")
  case True
  have sp: "isSpace (CHR '' '')" by (simp add: isSpace_def)
  with True have "\<forall>c\<in>set (x @ '' ''). isSpace c" by simp
  then have "dropWhile isSpace (x @ '' '') = []" using dropWhile_eq_Nil_conv by blast
  moreover from True have "dropWhile isSpace x = []" using dropWhile_eq_Nil_conv by blast
  ultimately show ?thesis by (simp only: trim_def rev.simps dropWhile.simps)
next
  case False
  then have "dropWhile isSpace (x @ '' '') = dropWhile isSpace x @ '' ''"
    by (simp add: dropWhile_append)
  then show ?thesis by (simp add: trim_def isSpace_def)
qed

lemma trim_Nil: "trim [] = []"
  by (simp add: trim_def)

text \<open>Cleaning a text of that shape with single spaces leaves it as it is.\<close>

lemma replaceAll_clean_id:
  "cleanShape x \<Longrightarrow> singleSpaced x \<Longrightarrow> replaceAll cleanRegex '' '' w x = x"
proof (induction x arbitrary: w)
  case Nil
  then show ?case by (simp add: replaceAll_Nil_clean)
next
  case (Cons a x)
  let ?P = "\<lambda>a b. \<not> (a = CHR ''.'' \<and> b = CHR '' '')"
  from Cons.prems(1) have c: "\<forall>c\<in>set (a # x). isSep c \<longrightarrow> c = CHR '' ''"
    and s: "successively ?P (a # x)" and l: "last (a # x) \<noteq> CHR ''.''"
    by (simp_all add: cleanShape_def)
  have cs: "cleanShape x"
    using Cons.prems(1) by (auto simp: cleanShape_def successively_Cons)
  have ss: "singleSpaced x"
    using Cons.prems(2) by (auto simp: singleSpaced_def successively_Cons)
  note ih = Cons.IH [OF cs ss]
  obtain w' where u: "replaceAll cleanRegex '' '' w (a # x) =
     (case dropWhile isDot (a # x) of
        [] \<Rightarrow> if a # x = [] then [] else '' ''
      | ch # d \<Rightarrow>
          if isSep ch then '' '' @ replaceAll cleanRegex '' '' w' (dropWhile isSep d)
          else hd (a # x) # replaceAll cleanRegex '' '' w' (tl (a # x)))"
    using replaceAll_clean by blast
  show ?case
  proof (cases "a = CHR '' ''")
    case True
    have "dropWhile isSep x = x"
    proof (cases x)
      case Nil
      then show ?thesis by simp
    next
      case (Cons b x')
      have "\<not> isSep b"
      proof
        assume "isSep b"
        with c Cons have "b = CHR '' ''" by simp
        with Cons.prems(2) True Cons show False
          by (simp add: singleSpaced_def)
      qed
      then show ?thesis using Cons by simp
    qed
    then show ?thesis using u True ih
      by (simp add: isDot_def isSep_space)
  next
    case False
    with c have ns: "\<not> isSep a" by auto
    show ?thesis
    proof (cases "a = CHR ''.''")
      case nodot: False
      then show ?thesis using u ns ih by (simp add: isDot_def)
    next
      case True
      let ?run = "CHR ''.'' # takeWhile isDot x"
      have run: "a # x = ?run @ dropWhile isDot x" using True by simp
      have rl: "last ?run = CHR ''.''"
      proof (cases "takeWhile isDot x = []")
        case True
        then show ?thesis by simp
      next
        case False
        then have "last (takeWhile isDot x) \<in> set (takeWhile isDot x)" by simp
        then have "isDot (last (takeWhile isDot x))" by (auto dest: set_takeWhileD)
        then show ?thesis using False by (simp add: isDot_def)
      qed
      obtain ch d where d: "dropWhile isDot x = ch # d"
      proof (cases "dropWhile isDot x")
        case Nil
        with run have "last (a # x) = last ?run" by simp
        with rl l show ?thesis by simp
      next
        case (Cons ch d)
        then show ?thesis using that by blast
      qed
      have "\<not> isSep ch"
      proof
        assume sep: "isSep ch"
        have "ch \<in> set (a # x)" by (subst run) (simp add: d)
        with c sep have "ch = CHR '' ''" by blast
        moreover from s have "successively ?P (?run @ ch # d)" by (simp only: run d)
        then have "?run = [] \<or> ch # d = [] \<or> ?P (last ?run) (hd (ch # d))"
          by (simp only: successively_append_iff)
        then have "?P (last ?run) ch" by simp
        ultimately show False using rl by simp
      qed
      then show ?thesis using u True ih d by (simp add: isDot_def)
    qed
  qed
qed


section \<open>Parsing the output again\<close>

lemma tokenize_cleanText: "tokenize input = matchAll tokenizerRegex False (cleanText input)"
  by (simp add: tokenize_def cleanText_def)

lemma tokenizer_plain: "\<forall>r\<in>set tokenizerRegex. plain r"
proof -
  have "list_all plain tokenizerRegex" by code_simp
  then show ?thesis by (simp add: list_all_iff)
qed

lemma cleanText_shape: "cleanShape (cleanText input)"
  unfolding cleanText_def
  by (intro toUpperCase_cleanShape trim_cleanShape replaceAll_cleanShape)

lemma cleanShape_spaces: "cleanShape x \<Longrightarrow> c \<in> set x \<Longrightarrow> isSpace c \<Longrightarrow> c = CHR '' ''"
  by (auto simp: cleanShape_def isSep_def)

lemma cleanText_ends:
  assumes "cleanText input \<noteq> []"
  shows "hd (cleanText input) \<noteq> CHR '' '' \<and> last (cleanText input) \<noteq> CHR '' ''"
proof -
  let ?c = "trim (replaceAll cleanRegex '' '' False input)"
  from assms have ne: "?c \<noteq> []" by (auto simp: cleanText_def toUpperCase_def)
  from trim_ends [OF ne] have "\<not> isSpace (hd (cleanText input))"
    and "\<not> isSpace (last (cleanText input))"
    using ne by (simp_all add: cleanText_def toUpperCase_def hd_map last_map isSpace_upperChar)
  then show ?thesis by (auto simp: isSpace_def)
qed

text \<open>A text that the cleaning leaves as it is, also after a space or before one.\<close>

lemma cleanText_fixed:
  assumes sh: "cleanShape k" and ss: "singleSpaced k"
    and ends: "k \<noteq> [] \<longrightarrow> hd k \<noteq> CHR '' '' \<and> last k \<noteq> CHR '' ''"
    and up: "toUpperCase k = k"
  shows "cleanText k = k" and "cleanText (CHR '' '' # k) = k" and "cleanText (k @ '' '') = k"
proof -
  have tr: "trim k = k"
  proof (cases "k = []")
    case True
    then show ?thesis by (simp add: trim_Nil)
  next
    case False
    with ends have "hd k \<noteq> CHR '' ''" "last k \<noteq> CHR '' ''" by simp_all
    moreover have "hd k \<in> set k" "last k \<in> set k" using False by simp_all
    ultimately have "\<not> isSpace (hd k)" "\<not> isSpace (last k)"
      using cleanShape_spaces [OF sh] by blast+
    with False show ?thesis by (rule trim_id)
  qed
  show "cleanText k = k"
    unfolding cleanText_def by (simp only: replaceAll_clean_id [OF sh ss] tr up)
  have "singleSpaced (CHR '' '' # k)"
    using ss ends by (cases k) (auto simp: singleSpaced_def)
  from replaceAll_clean_id [OF cleanShape_space_Cons [OF sh] this]
  show "cleanText (CHR '' '' # k) = k"
    unfolding cleanText_def by (simp only: trim_space_Cons tr up)
  have "singleSpaced (k @ '' '')"
    using ss ends by (auto simp: singleSpaced_def successively_append_iff)
  from replaceAll_clean_id [OF cleanShape_snoc_space [OF sh] this]
  show "cleanText (k @ '' '') = k"
    unfolding cleanText_def by (simp only: trim_snoc_space tr up)
qed

lemma joinSp_split:
  "joinSp (take n ks) @ '' '' @ joinSp (drop n ks) = joinSp ks
   \<or> joinSp (take n ks) @ '' '' @ joinSp (drop n ks) = CHR '' '' # joinSp ks
   \<or> joinSp (take n ks) @ '' '' @ joinSp (drop n ks) = joinSp ks @ '' ''"
proof (cases "take n ks = []")
  case True
  then have "drop n ks = ks" by (metis append_Nil append_take_drop_id)
  then show ?thesis unfolding True by simp
next
  case False
  show ?thesis
  proof (cases "drop n ks = []")
    case True
    then have "take n ks = ks" by (metis append_Nil2 append_take_drop_id)
    then show ?thesis unfolding True by simp
  next
    case d: False
    from joinSp_append [OF False d] show ?thesis by simp
  qed
qed

text \<open>
  The first tokens of a text that is its tokens joined by single spaces: joined again,
  in two parts with a space between them, they are tokenized to themselves.
\<close>

lemma tokenize_joined:
  assumes j: "joinSp (tokenize input) = cleanText input" and ss: "singleSpaced (cleanText input)"
  shows "tokenize (joinSp (take n (take k (tokenize input))) @ '' '' @
                   joinSp (drop n (take k (tokenize input)))) = take k (tokenize input)"
proof -
  let ?ts = "tokenize input" and ?u = "cleanText input"
  let ?ks = "take k ?ts"
  let ?K = "joinSp ?ks"
  note sh = cleanText_shape [of input]
  have m: "matchAll tokenizerRegex False (joinSp ?ts) = ?ts"
    by (simp only: j tokenize_cleanText [symmetric])
  have sp: "\<forall>ch\<in>set (joinSp ?ts). isSpace ch \<longrightarrow> ch = CHR '' ''"
    unfolding j using cleanShape_spaces [OF sh] by blast
  have ends: "joinSp ?ts \<noteq> [] \<longrightarrow> hd (joinSp ?ts) \<noteq> CHR '' '' \<and> last (joinSp ?ts) \<noteq> CHR '' ''"
    unfolding j using cleanText_ends by blast
  have ssj: "singleSpaced (joinSp ?ts)" unfolding j by (rule ss)
  from matchAll_take [OF tokenizer_nonspace tokenizer_minLen_all tokenizer_plain m ssj sp ends]
  have mk: "matchAll tokenizerRegex False ?K = ?ks" .
  have good: "cleanShape ?K \<and> singleSpaced ?K
      \<and> (?K \<noteq> [] \<longrightarrow> hd ?K \<noteq> CHR '' '' \<and> last ?K \<noteq> CHR '' '') \<and> set ?K \<subseteq> set ?u"
  proof (cases "?ks = []")
    case True
    show ?thesis unfolding True by (simp add: cleanShape_Nil singleSpaced_def)
  next
    case False
    from joinSp_take_prefix [OF False] obtain e where e: "joinSp ?ts = ?K @ e"
      and eh: "e = [] \<or> hd e = CHR '' ''" by blast
    from e j have u: "?u = ?K @ e" by simp
    show ?thesis
    proof (cases e)
      case Nil
      with u have "?u = ?K" by simp
      then show ?thesis using sh ss cleanText_ends [of input] by simp
    next
      case (Cons a y)
      with eh have ue: "?u = ?K @ CHR '' '' # y" using u by simp
      have 1: "cleanShape ?K" using sh unfolding ue by (rule cleanShape_prefix)
      have 2: "singleSpaced ?K" using ss unfolding ue by (auto dest: singleSpaced_append)
      have 3: "?K \<noteq> [] \<longrightarrow> hd ?K \<noteq> CHR '' '' \<and> last ?K \<noteq> CHR '' ''"
      proof
        assume ne: "?K \<noteq> []"
        have "?u \<noteq> []" unfolding ue by simp
        from cleanText_ends [OF this] have "hd ?u \<noteq> CHR '' ''" by simp
        then have "hd ?K \<noteq> CHR '' ''" unfolding ue using ne by simp
        moreover have "last ?K \<noteq> CHR '' ''"
          using ss ne unfolding ue by (auto simp: singleSpaced_def successively_append_iff)
        ultimately show "hd ?K \<noteq> CHR '' '' \<and> last ?K \<noteq> CHR '' ''" by simp
      qed
      have 4: "set ?K \<subseteq> set ?u" unfolding ue by auto
      from 1 2 3 4 show ?thesis by simp
    qed
  qed
  then have up: "toUpperCase ?K = ?K"
    using toUpperCase_fixed [of ?K "trim (replaceAll cleanRegex '' '' False input)"]
    by (simp add: cleanText_def)
  from good have g: "cleanShape ?K" "singleSpaced ?K"
    "?K \<noteq> [] \<longrightarrow> hd ?K \<noteq> CHR '' '' \<and> last ?K \<noteq> CHR '' ''" by simp_all
  note fixed = cleanText_fixed [OF g up]
  have ct: "cleanText (joinSp (take n ?ks) @ '' '' @ joinSp (drop n ?ks)) = ?K"
    using joinSp_split [of n ?ks] fixed by metis
  have "tokenize (joinSp (take n ?ks) @ '' '' @ joinSp (drop n ?ks))
          = matchAll tokenizerRegex False (cleanText (joinSp (take n ?ks) @ '' '' @ joinSp (drop n ?ks)))"
    by (rule tokenize_cleanText)
  also have "\<dots> = matchAll tokenizerRegex False ?K" by (simp only: ct)
  also have "\<dots> = ?ks" by (rule mk)
  finally show ?thesis .
qed

lemma keptTokens_stable:
  assumes "length ks \<le> countHousenumberTokens ks + 1
           \<or> (\<not> beginsWithFiveDigits (last ks) \<and> tokenBoro (last ks) = 9)"
  shows "keptTokens ks = ks"
proof (cases "length ks \<le> countHousenumberTokens ks + 1")
  case True
  then show ?thesis
    unfolding keptTokens_def resolved_def
    by (subst resolveLoop.simps) (simp add: initialState_def)
next
  case False
  with assms have "zipMatches (last ks) = None" "tokenBoro (last ks) = 9"
    using zipMatches_beginsWithFiveDigits [of "last ks"] by auto
  then show ?thesis
    unfolding keptTokens_def resolved_def
    by (subst resolveLoop.simps) (simp add: initialState_def Let_def)
qed

text \<open>
  Claim C4 as stated fails, in four ways. The loop of step 3 stops at the first borough
  token, so the street of \<open>1 x bx bx\<close> is X BX and parsing \<open>1 X BX\<close> removes BX again.
  The tokenizer fuses FRONT STR only when one space separates the words: \<open>1 front .. str x\<close>
  is cleaned to two spaces there, its housenumber is 1 FRONT, and in the joined output
  FRONT STR is one token of the street. A token can hold two spaces, which the second
  cleaning makes one: the street of \<open>5 john f . kennedy airport\<close>. And two tokens can
  stand side by side, so that the space the output puts between them changes the first
  one: AIR TRAIN- in \<open>1 air train-5\<close>.
\<close>

theorem reparse_changes_split_counterexample:
  "parseNycAddress ''1 x bx bx'' =
     Inr \<lparr>housenumber = Some ''1'', street = Some ''X BX'', borough = Some 2,
          postcode = None, marble_hill = None\<rparr>
   \<and> concatFields \<lparr>housenumber = Some ''1'', street = Some ''X BX'', borough = Some 2,
          postcode = None, marble_hill = None\<rparr> = ''1 X BX''
   \<and> parseNycAddress ''1 X BX'' =
     Inr \<lparr>housenumber = Some ''1'', street = Some ''X'', borough = Some 2,
          postcode = None, marble_hill = None\<rparr>
   \<and> joinSp (tokenize ''1 x bx bx'') = cleanText ''1 x bx bx''
   \<and> singleSpaced (cleanText ''1 x bx bx'')
   \<and> keptTokens (tokenize ''1 x bx bx'') = [''1'', ''X'', ''BX'']
   \<and> countHousenumberTokens (tokenize ''1 x bx bx'') = 1
   \<and> tokenBoro ''BX'' = 2
   \<and> parseNycAddress ''1 front .. str x'' =
     Inr \<lparr>housenumber = Some ''1 FRONT'', street = Some ''STR X'', borough = None,
          postcode = None, marble_hill = None\<rparr>
   \<and> concatFields \<lparr>housenumber = Some ''1 FRONT'', street = Some ''STR X'', borough = None,
          postcode = None, marble_hill = None\<rparr> = ''1 FRONT STR X''
   \<and> parseNycAddress ''1 FRONT STR X'' =
     Inr \<lparr>housenumber = Some ''1'', street = Some ''FRONT STR X'', borough = None,
          postcode = None, marble_hill = None\<rparr>
   \<and> cleanText ''1 front .. str x'' = ''1 FRONT  STR X''
   \<and> parseNycAddress ''5 john f . kennedy airport'' =
     Inr \<lparr>housenumber = Some ''5'', street = Some ''JOHN F  KENNEDY AIRPORT'', borough = None,
          postcode = None, marble_hill = None\<rparr>
   \<and> concatFields \<lparr>housenumber = Some ''5'', street = Some ''JOHN F  KENNEDY AIRPORT'',
          borough = None, postcode = None, marble_hill = None\<rparr> = ''5 JOHN F  KENNEDY AIRPORT''
   \<and> parseNycAddress ''5 JOHN F  KENNEDY AIRPORT'' =
     Inr \<lparr>housenumber = Some ''5'', street = Some ''JOHN F KENNEDY AIRPORT'', borough = None,
          postcode = None, marble_hill = None\<rparr>
   \<and> joinSp (tokenize ''5 john f . kennedy airport'') = cleanText ''5 john f . kennedy airport''
   \<and> \<not> singleSpaced (cleanText ''5 john f . kennedy airport'')
   \<and> length (keptTokens (tokenize ''5 john f . kennedy airport''))
        \<le> countHousenumberTokens (tokenize ''5 john f . kennedy airport'') + 1
   \<and> parseNycAddress ''1 air train-5'' =
     Inr \<lparr>housenumber = Some ''1'', street = Some ''AIR TRAIN- 5'', borough = None,
          postcode = None, marble_hill = None\<rparr>
   \<and> concatFields \<lparr>housenumber = Some ''1'', street = Some ''AIR TRAIN- 5'', borough = None,
          postcode = None, marble_hill = None\<rparr> = ''1 AIR TRAIN- 5''
   \<and> parseNycAddress ''1 AIR TRAIN- 5'' =
     Inr \<lparr>housenumber = Some ''1'', street = Some ''AIR TRAIN - 5'', borough = None,
          postcode = None, marble_hill = None\<rparr>
   \<and> joinSp (tokenize ''1 air train-5'') \<noteq> cleanText ''1 air train-5''
   \<and> singleSpaced (cleanText ''1 air train-5'')
   \<and> \<not> beginsWithFiveDigits (last (keptTokens (tokenize ''1 air train-5'')))
   \<and> tokenBoro (last (keptTokens (tokenize ''1 air train-5''))) = 9"
  by code_simp

text \<open>
  Claim C4, amended: for every input with output \<open>r\<close>, parsing the housenumber and
  street of \<open>r\<close> joined by a space gives the same housenumber and street, when the
  cleaned text of the input is its tokens joined by single spaces and has no two spaces
  in a row, and the last token that the loop of step 3 has left is no borough or postcode
  evidence (it does not begin with five digits and has no borough code) or at most one
  token is left beyond the housenumber count. The conditions are on the first parse
  only; each of them fails in one of the inputs above.
\<close>

theorem reparse_same_split:
  assumes p: "parseNycAddress input = Inr r"
    and j: "joinSp (tokenize input) = cleanText input"
    and ss: "singleSpaced (cleanText input)"
    and last: "length (keptTokens (tokenize input)) \<le> countHousenumberTokens (tokenize input) + 1
         \<or> (\<not> beginsWithFiveDigits (last (keptTokens (tokenize input)))
             \<and> tokenBoro (last (keptTokens (tokenize input))) = 9)"
  shows "\<exists>r'. parseNycAddress (concatFields r) = Inr r'
           \<and> housenumber r' = housenumber r \<and> street r' = street r"
proof -
  let ?ts = "tokenize input"
  let ?ks = "keptTokens ?ts"
  let ?n = "finalCount ?ts"
  obtain r0 where r0: "parseTokens ?ts = Inr r0"
    and h: "housenumber r0 = optText (joinSp (take ?n ?ks))"
    and s: "street r0 = optText (joinSp (drop ?n ?ks))"
    using parseTokens_fields by blast
  from r0 p have rr: "r0 = r" by (simp add: parseNycAddress_def)
  have cf: "concatFields r = joinSp (take ?n ?ks) @ '' '' @ joinSp (drop ?n ?ks)"
    using h s unfolding rr concatFields_def optText_def by simp
  obtain k where k: "?ks = take k ?ts" using keptTokens_prefix by blast
  have tk: "tokenize (concatFields r) = ?ks"
    unfolding cf k by (rule tokenize_joined [OF j ss])
  have st: "keptTokens ?ks = ?ks"
    using last by (intro keptTokens_stable) (simp add: countHousenumberTokens_kept)
  then have fc: "finalCount ?ks = ?n"
    by (intro finalCount_kept) simp
  obtain r' where r': "parseTokens ?ks = Inr r'"
    and h': "housenumber r' = optText (joinSp (take (finalCount ?ks) (keptTokens ?ks)))"
    and s': "street r' = optText (joinSp (drop (finalCount ?ks) (keptTokens ?ks)))"
    using parseTokens_fields by blast
  from h s h' s' have "housenumber r' = housenumber r \<and> street r' = street r"
    unfolding rr st fc by simp
  with r' show ?thesis by (auto simp: parseNycAddress_def tk)
qed

theorem reparse_same_split_witness:
  "parseNycAddress ''12 main street apt 4 brooklyn'' =
     Inr \<lparr>housenumber = Some ''12'', street = Some ''MAIN STREET APT 4'', borough = Some 3,
          postcode = None, marble_hill = None\<rparr>
   \<and> joinSp (tokenize ''12 main street apt 4 brooklyn'') = cleanText ''12 main street apt 4 brooklyn''
   \<and> singleSpaced (cleanText ''12 main street apt 4 brooklyn'')
   \<and> \<not> beginsWithFiveDigits (last (keptTokens (tokenize ''12 main street apt 4 brooklyn'')))
   \<and> tokenBoro (last (keptTokens (tokenize ''12 main street apt 4 brooklyn''))) = 9
   \<and> parseNycAddress ''12 MAIN STREET APT 4'' =
     Inr \<lparr>housenumber = Some ''12'', street = Some ''MAIN STREET APT 4'', borough = None,
          postcode = None, marble_hill = None\<rparr>"
proof -
  let ?i = "''12 main street apt 4 brooklyn''"
  let ?r = "\<lparr>housenumber = Some ''12'', street = Some ''MAIN STREET APT 4'', borough = Some 3,
          postcode = None, marble_hill = None\<rparr>"
  have a: "parseNycAddress ?i = Inr ?r" by code_simp
  have j: "joinSp (tokenize ?i) = cleanText ?i" by code_simp
  have ss: "singleSpaced (cleanText ?i)" by code_simp
  have l: "\<not> beginsWithFiveDigits (last (keptTokens (tokenize ?i)))
           \<and> tokenBoro (last (keptTokens (tokenize ?i))) = 9" by code_simp
  have c: "concatFields ?r = ''12 MAIN STREET APT 4''" by code_simp
  have b: "parseNycAddress ''12 MAIN STREET APT 4'' =
     Inr \<lparr>housenumber = Some ''12'', street = Some ''MAIN STREET APT 4'', borough = None,
          postcode = None, marble_hill = None\<rparr>" by code_simp
  from l have l': "length (keptTokens (tokenize ?i)) \<le> countHousenumberTokens (tokenize ?i) + 1
         \<or> (\<not> beginsWithFiveDigits (last (keptTokens (tokenize ?i)))
             \<and> tokenBoro (last (keptTokens (tokenize ?i))) = 9)" by blast
  from reparse_same_split [OF a j ss l'] a j ss l b show ?thesis unfolding c by simp
qed

end
